theory Spec2Isabelle
  imports Main "HOL-Library.Word"
begin

unbundle bit_operations_syntax

section \<open>The file store the explorer runs on\<close>

text \<open>
  Both programs of the repository (\<^verbatim>\<open>File_Explorer.cpp\<close>, built on the POSIX calls, and
  the second \<^verbatim>\<open>file_explorer.cpp\<close>, built on \<^verbatim>\<open>std::filesystem\<close>) act on the file
  store of the operating system. The store is modelled as a tree: a regular file carries
  its permission bits and its bytes, a directory its permission bits, the number of the
  device that holds its entries, and its entries in enumeration order.

  What the model leaves out: symbolic and hard links, special files, time stamps,
  owners. The process is taken to be the unprivileged owner of every entry, so the
  owner bits \<open>r = 0400\<close>, \<open>w = 0200\<close>, \<open>x = 0100\<close> decide every access.
\<close>

type_synonym mode_t = "32 word"

abbreviation S_IFMT :: mode_t where "S_IFMT \<equiv> 61440"
abbreviation S_IFDIR :: mode_t where "S_IFDIR \<equiv> 16384"
abbreviation S_IFREG :: mode_t where "S_IFREG \<equiv> 32768"
abbreviation S_IRUSR :: mode_t where "S_IRUSR \<equiv> 256"
abbreviation S_IWUSR :: mode_t where "S_IWUSR \<equiv> 128"
abbreviation S_IXUSR :: mode_t where "S_IXUSR \<equiv> 64"

datatype node =
    File (perm: mode_t) (bytes: string)
  | Dir (perm: mode_t) (devno: nat) (entries: "(string \<times> node) list")

fun is_dir :: "node \<Rightarrow> bool" where
  "is_dir (Dir m d es) = True"
| "is_dir (File m b) = False"

text \<open>\<open>st_mode\<close> as \<^verbatim>\<open>stat\<close> reports it: the type bits and the twelve permission bits.\<close>

fun st_mode_of :: "node \<Rightarrow> mode_t" where
  "st_mode_of (File m b) = S_IFREG OR (m AND 4095)"
| "st_mode_of (Dir m d es) = S_IFDIR OR (m AND 4095)"

definition S_ISDIR :: "mode_t \<Rightarrow> bool" where
  "S_ISDIR m = (m AND S_IFMT = S_IFDIR)"

fun set_perm :: "mode_t \<Rightarrow> node \<Rightarrow> node" where
  "set_perm m (File m' b) = File m b"
| "set_perm m (Dir m' d es) = Dir m d es"

subsection \<open>Path strings\<close>

text \<open>
  The programs build paths as strings (\<^verbatim>\<open>currentPath + "/" + name\<close>); the store resolves
  them. A path string is cut at every \<^verbatim>\<open>/\<close>; empty pieces are dropped, so repeated
  slashes count once. (What a slash at the end demands is part of \<open>resolve\<close> below.)
\<close>

fun split_slash :: "string \<Rightarrow> string list" where
  "split_slash [] = [[]]"
| "split_slash (c # cs) =
     (if c = CHR ''/'' then [] # split_slash cs
      else (case split_slash cs of [] \<Rightarrow> [[c]] | x # xs \<Rightarrow> (c # x) # xs))"

definition components :: "string \<Rightarrow> string list" where
  "components s = filter (\<lambda>c. c \<noteq> []) (split_slash s)"

fun lookup :: "node \<Rightarrow> string list \<Rightarrow> node option" where
  "lookup n [] = Some n"
| "lookup (Dir m d es) (c # cs) =
     (case map_of es c of None \<Rightarrow> None | Some ch \<Rightarrow> lookup ch cs)"
| "lookup (File m b) (c # cs) = None"

text \<open>
  Resolution walks the pieces from a starting directory: every directory passed through
  must exist and be searchable; \<^verbatim>\<open>.\<close> stays, \<^verbatim>\<open>..\<close> goes up. The last piece need not
  exist (the path of an entry about to be created).
\<close>

fun walk :: "node \<Rightarrow> string list \<Rightarrow> string list \<Rightarrow> string list option" where
  "walk r cur [] = Some cur"
| "walk r cur (c # cs) =
     (case lookup r cur of
        Some (Dir m d es) \<Rightarrow>
          if m AND S_IXUSR = 0 then None
          else if c = ''.'' then walk r cur cs
          else if c = ''..'' then walk r (butlast cur) cs
          else walk r (cur @ [c]) cs
      | _ \<Rightarrow> None)"

subsection \<open>The state of the operating system\<close>

datatype syscall =
    Mkdir string mode_t
  | Rmdir string
  | Unlink string
  | Rename string string
  | OpenWrite string
  | Chmod string mode_t
  | Chown string "nat option" "nat option"
  | Chdir string
  | RemoveAll string

text \<open>
  \<open>trace\<close> records every attempt to change the store or the working directory of the
  process, in order, with its success. \<open>passwd\<close> and \<open>groups\<close> are the user and group
  databases, \<open>home\<close> the value of \<^verbatim>\<open>HOME\<close> (taken to be set), \<open>euid\<close> the user the process
  runs as and \<open>egroups\<close> the groups it is a member of.
\<close>

record world =
  root :: node
  umask :: mode_t
  cwd :: "string list"
  passwd :: "(string \<times> nat) list"
  groups :: "(string \<times> nat) list"
  home :: string
  euid :: nat
  egroups :: "nat list"
  trace :: "(syscall \<times> bool) list"

definition logged :: "syscall \<Rightarrow> bool \<Rightarrow> world \<Rightarrow> world" where
  "logged c ok w = w\<lparr>trace := trace w @ [(c, ok)]\<rparr>"

definition failed :: "syscall \<Rightarrow> world \<Rightarrow> bool \<times> world" where
  "failed c w = (False, logged c False w)"

definition done_with :: "syscall \<Rightarrow> node \<Rightarrow> world \<Rightarrow> bool \<times> world" where
  "done_with c r w = (True, (logged c True w)\<lparr>root := r\<rparr>)"

text \<open>
  A path string that ends in a slash names a directory that is there: on anything else
  the resolution fails (\<^verbatim>\<open>ENOTDIR\<close>, \<^verbatim>\<open>ENOENT\<close>, and \<^verbatim>\<open>EISDIR\<close> for a file to create).
  The calls that may create a directory under such a name, \<^verbatim>\<open>mkdir\<close> and \<^verbatim>\<open>rename\<close>,
  resolve the string \<open>without_slashes\<close>.
\<close>

definition resolve :: "world \<Rightarrow> string \<Rightarrow> string list option" where
  "resolve w s =
     (if s = [] then None
      else
        (case walk (root w) (if hd s = CHR ''/'' then [] else cwd w) (components s) of
           None \<Rightarrow> None
         | Some p \<Rightarrow>
             if last s = CHR ''/''
             then (case lookup (root w) p of Some (Dir m d es) \<Rightarrow> Some p | _ \<Rightarrow> None)
             else Some p))"

definition without_slashes :: "string \<Rightarrow> string" where
  "without_slashes s = rev (dropWhile (\<lambda>c. c = CHR ''/'') (rev s))"

text \<open>The last piece of the path string is \<^verbatim>\<open>.\<close> or \<^verbatim>\<open>..\<close>.\<close>

definition ends_in_dot :: "string \<Rightarrow> bool" where
  "ends_in_dot s = (components s \<noteq> [] \<and> (last (components s) = ''.'' \<or> last (components s) = ''..''))"

definition node_at :: "world \<Rightarrow> string \<Rightarrow> node option" where
  "node_at w s = (case resolve w s of None \<Rightarrow> None | Some p \<Rightarrow> lookup (root w) p)"

subsection \<open>Changing the tree\<close>

fun set_entry :: "string \<Rightarrow> node \<Rightarrow> (string \<times> node) list \<Rightarrow> (string \<times> node) list" where
  "set_entry k v [] = [(k, v)]"
| "set_entry k v (e # es) = (if fst e = k then (k, v) # es else e # set_entry k v es)"

fun alter_entry :: "string \<Rightarrow> node option \<Rightarrow> (string \<times> node) list \<Rightarrow> (string \<times> node) list" where
  "alter_entry k None es = filter (\<lambda>e. fst e \<noteq> k) es"
| "alter_entry k (Some v) es = set_entry k v es"

text \<open>
  \<open>alter p v r\<close> stores \<open>v\<close> at the resolved path \<open>p\<close> of the tree \<open>r\<close> (\<open>None\<close> removes
  the entry). A new entry goes to the end of its directory.
\<close>

fun alter :: "string list \<Rightarrow> node option \<Rightarrow> node \<Rightarrow> node" where
  "alter [] v n = (case v of None \<Rightarrow> n | Some n' \<Rightarrow> n')"
| "alter (c # cs) v (Dir m d es) =
     (if cs = [] then Dir m d (alter_entry c v es)
      else (case map_of es c of
              None \<Rightarrow> Dir m d es
            | Some ch \<Rightarrow> Dir m d (set_entry c (alter cs v ch) es)))"
| "alter (c # cs) v (File m b) = File m b"

text \<open>Creating or removing an entry needs write and search permission on its directory.\<close>

definition parent_writable :: "node \<Rightarrow> string list \<Rightarrow> bool" where
  "parent_writable r p =
     (p \<noteq> [] \<and>
      (case lookup r (butlast p) of
         Some (Dir m d es) \<Rightarrow> m AND S_IWUSR \<noteq> 0 \<and> m AND S_IXUSR \<noteq> 0
       | _ \<Rightarrow> False))"

definition dev_at :: "node \<Rightarrow> string list \<Rightarrow> nat" where
  "dev_at r p = (case lookup r p of Some (Dir m d es) \<Rightarrow> d | _ \<Rightarrow> 0)"

definition is_prefix :: "string list \<Rightarrow> string list \<Rightarrow> bool" where
  "is_prefix p q = (take (length p) q = p)"

subsection \<open>The system calls\<close>

definition stat :: "world \<Rightarrow> string \<Rightarrow> mode_t option" where
  "stat w s = map_option st_mode_of (node_at w s)"

text \<open>
  \<^verbatim>\<open>mkdir(path, mode)\<close>: the new directory gets \<^verbatim>\<open>mode & ~umask & 01777\<close>. A path that
  with its closing zero byte is longer than \<^verbatim>\<open>PATH_MAX\<close> is refused with
  \<^verbatim>\<open>ENAMETOOLONG\<close>: this is what ends a copy of a directory into itself. (The other
  calls have the same limit; it is modelled here, where the programs make paths grow.)
\<close>

abbreviation PATH_MAX :: nat where "PATH_MAX \<equiv> 4096"

definition mkdir :: "world \<Rightarrow> string \<Rightarrow> mode_t \<Rightarrow> bool \<times> world" where
  "mkdir w s m =
     (if PATH_MAX < length s + 1 then failed (Mkdir s m) w
      else
        (case resolve w (without_slashes s) of
           None \<Rightarrow> failed (Mkdir s m) w
         | Some p \<Rightarrow>
             if lookup (root w) p = None \<and> parent_writable (root w) p
             then done_with (Mkdir s m)
                    (alter p (Some (Dir (m AND NOT (umask w) AND 1023) (dev_at (root w) (butlast p)) []))
                       (root w)) w
             else failed (Mkdir s m) w))"

text \<open>
  \<^verbatim>\<open>rmdir(path)\<close> removes an empty directory; it refuses a path whose last piece is
  \<^verbatim>\<open>.\<close> (\<^verbatim>\<open>EINVAL\<close>) or \<^verbatim>\<open>..\<close> (\<^verbatim>\<open>ENOTEMPTY\<close>).
\<close>

definition rmdir :: "world \<Rightarrow> string \<Rightarrow> bool \<times> world" where
  "rmdir w s =
     (if ends_in_dot s then failed (Rmdir s) w
      else
        (case resolve w s of
           None \<Rightarrow> failed (Rmdir s) w
         | Some p \<Rightarrow>
             (case lookup (root w) p of
                Some (Dir m d []) \<Rightarrow>
                  if parent_writable (root w) p
                  then done_with (Rmdir s) (alter p None (root w)) w
                  else failed (Rmdir s) w
              | _ \<Rightarrow> failed (Rmdir s) w)))"

definition unlink :: "world \<Rightarrow> string \<Rightarrow> bool \<times> world" where
  "unlink w s =
     (case resolve w s of
        None \<Rightarrow> failed (Unlink s) w
      | Some p \<Rightarrow>
          (case lookup (root w) p of
             Some (File m b) \<Rightarrow>
               if parent_writable (root w) p
               then done_with (Unlink s) (alter p None (root w)) w
               else failed (Unlink s) w
           | _ \<Rightarrow> failed (Unlink s) w))"

text \<open>
  \<^verbatim>\<open>rename(old, new)\<close> moves an entry inside one device. It fails across devices
  (\<^verbatim>\<open>EXDEV\<close>), into the moved directory itself, without write permission on either
  directory, onto an existing entry that it may not replace (a file replaces a file,
  a directory an empty directory), and on a path whose last piece is \<^verbatim>\<open>.\<close> or \<^verbatim>\<open>..\<close>.
  A directory may be given a new name that is written with a slash at its end.
\<close>

definition rename :: "world \<Rightarrow> string \<Rightarrow> string \<Rightarrow> bool \<times> world" where
  "rename w a b =
     (case (if ends_in_dot a \<or> ends_in_dot b then None else resolve w a) of
        None \<Rightarrow> failed (Rename a b) w
      | Some pa \<Rightarrow>
          (case resolve w (case lookup (root w) pa of
                             Some (Dir m d es) \<Rightarrow> without_slashes b
                           | _ \<Rightarrow> b) of
             None \<Rightarrow> failed (Rename a b) w
           | Some pb \<Rightarrow>
               (case lookup (root w) pa of
                  None \<Rightarrow> failed (Rename a b) w
                | Some src \<Rightarrow>
                    if pa = [] \<or> pb = [] then failed (Rename a b) w
                    else if pa = pb then (True, logged (Rename a b) True w)
                    else if \<not> parent_writable (root w) pa \<or> \<not> parent_writable (root w) pb
                      then failed (Rename a b) w
                    else if is_prefix pa pb then failed (Rename a b) w
                    else if dev_at (root w) (butlast pa) \<noteq> dev_at (root w) (butlast pb)
                         \<or> (is_dir src \<and> devno src \<noteq> dev_at (root w) (butlast pa))
                      then failed (Rename a b) w
                    else
                      (case lookup (root w) pb of
                         None \<Rightarrow>
                           done_with (Rename a b) (alter pb (Some src) (alter pa None (root w))) w
                       | Some (File m' b') \<Rightarrow>
                           if is_dir src then failed (Rename a b) w
                           else done_with (Rename a b)
                                  (alter pb (Some src) (alter pa None (root w))) w
                       | Some (Dir m' d' es') \<Rightarrow>
                           if is_dir src \<and> es' = []
                           then done_with (Rename a b)
                                  (alter pb (Some src) (alter pa None (root w))) w
                           else failed (Rename a b) w))))"

text \<open>\<^verbatim>\<open>chmod(path, mode)\<close>: the owner may always set the twelve permission bits.\<close>

definition chmod :: "world \<Rightarrow> string \<Rightarrow> mode_t \<Rightarrow> bool \<times> world" where
  "chmod w s m =
     (case resolve w s of
        None \<Rightarrow> failed (Chmod s m) w
      | Some p \<Rightarrow>
          (case lookup (root w) p of
             None \<Rightarrow> failed (Chmod s m) w
           | Some n \<Rightarrow> done_with (Chmod s m) (alter p (Some (set_perm (m AND 4095) n)) (root w)) w))"

text \<open>
  \<^verbatim>\<open>chown(path, uid, gid)\<close>: \<open>None\<close> stands for \<^verbatim>\<open>-1\<close> (leave unchanged). The process is
  the unprivileged owner: it may name itself as the owner, and as the group any group
  it is a member of. Which of its groups an entry has is not part of the store.
\<close>

definition chown :: "world \<Rightarrow> string \<Rightarrow> nat option \<Rightarrow> nat option \<Rightarrow> bool \<times> world" where
  "chown w s uid gid =
     (if node_at w s \<noteq> None
         \<and> (case uid of None \<Rightarrow> True | Some u \<Rightarrow> u = euid w)
         \<and> (case gid of None \<Rightarrow> True | Some g \<Rightarrow> g \<in> set (egroups w))
      then (True, logged (Chown s uid gid) True w)
      else failed (Chown s uid gid) w)"

definition chdir :: "world \<Rightarrow> string \<Rightarrow> bool \<times> world" where
  "chdir w s =
     (case resolve w s of
        None \<Rightarrow> failed (Chdir s) w
      | Some p \<Rightarrow>
          (case lookup (root w) p of
             Some (Dir m d es) \<Rightarrow>
               if m AND S_IXUSR \<noteq> 0 then (True, (logged (Chdir s) True w)\<lparr>cwd := p\<rparr>)
               else failed (Chdir s) w
           | _ \<Rightarrow> failed (Chdir s) w))"

text \<open>
  \<^verbatim>\<open>opendir\<close> needs read permission on the directory; the stream then yields \<^verbatim>\<open>.\<close>,
  \<^verbatim>\<open>..\<close> and the names present when it was opened.
\<close>

definition opendir :: "world \<Rightarrow> string \<Rightarrow> string list option" where
  "opendir w s =
     (case node_at w s of
        Some (Dir m d es) \<Rightarrow>
          if m AND S_IRUSR \<noteq> 0 then Some (''.'' # ''..'' # map fst es) else None
      | _ \<Rightarrow> None)"

text \<open>
  \<^verbatim>\<open>ifstream(path)\<close> opens for reading (a directory opens too, and then reads as
  nothing). \<open>open_trunc\<close> is \<^verbatim>\<open>open(path, O_WRONLY|O_CREAT|O_TRUNC, cm)\<close>: it creates
  the file with \<^verbatim>\<open>cm & ~umask\<close> or empties an existing writable one; \<^verbatim>\<open>ofstream(path)\<close>
  does so with \<^verbatim>\<open>0666\<close>.
\<close>

definition ifstream_open :: "world \<Rightarrow> string \<Rightarrow> bool" where
  "ifstream_open w s =
     (case node_at w s of None \<Rightarrow> False | Some n \<Rightarrow> perm n AND S_IRUSR \<noteq> 0)"

definition rdbuf :: "world \<Rightarrow> string \<Rightarrow> string" where
  "rdbuf w s = (case node_at w s of Some (File m b) \<Rightarrow> b | _ \<Rightarrow> [])"

definition open_trunc :: "world \<Rightarrow> string \<Rightarrow> mode_t \<Rightarrow> bool \<times> world" where
  "open_trunc w s cm =
     (case resolve w s of
        None \<Rightarrow> failed (OpenWrite s) w
      | Some p \<Rightarrow>
          (case lookup (root w) p of
             Some (File m b) \<Rightarrow>
               if m AND S_IWUSR \<noteq> 0
               then done_with (OpenWrite s) (alter p (Some (File m [])) (root w)) w
               else failed (OpenWrite s) w
           | Some (Dir m d es) \<Rightarrow> failed (OpenWrite s) w
           | None \<Rightarrow>
               if parent_writable (root w) p
               then done_with (OpenWrite s)
                      (alter p (Some (File (cm AND NOT (umask w)) [])) (root w)) w
               else failed (OpenWrite s) w))"

definition ofstream_open :: "world \<Rightarrow> string \<Rightarrow> bool \<times> world" where
  "ofstream_open w s = open_trunc w s 438"

definition write_bytes :: "world \<Rightarrow> string \<Rightarrow> string \<Rightarrow> world" where
  "write_bytes w s data =
     (case resolve w s of
        None \<Rightarrow> w
      | Some p \<Rightarrow>
          (case lookup (root w) p of
             Some (File m b) \<Rightarrow> w\<lparr>root := alter p (Some (File m (b @ data))) (root w)\<rparr>
           | _ \<Rightarrow> w))"

section \<open>\<^verbatim>\<open>File_Explorer.cpp\<close>: the explorer on the POSIX calls\<close>

subsection \<open>Strings\<close>

text \<open>\<^verbatim>\<open>std::string::find_last_of(c)\<close>, \<^verbatim>\<open>find(needle)\<close> (\<open>None\<close> is \<^verbatim>\<open>npos\<close>) and \<^verbatim>\<open>::tolower\<close>.\<close>

fun find_last_of :: "string \<Rightarrow> char \<Rightarrow> nat option" where
  "find_last_of [] c = None"
| "find_last_of (x # xs) c =
     (case find_last_of xs c of
        Some i \<Rightarrow> Some (Suc i)
      | None \<Rightarrow> if x = c then Some 0 else None)"

fun str_find :: "string \<Rightarrow> string \<Rightarrow> nat option" where
  "str_find [] n = (if n = [] then Some 0 else None)"
| "str_find (h # hs) n =
     (if take (length n) (h # hs) = n then Some 0 else map_option Suc (str_find hs n))"

definition tolower :: "char \<Rightarrow> char" where
  "tolower c =
     (case map_of (zip ''ABCDEFGHIJKLMNOPQRSTUVWXYZ'' ''abcdefghijklmnopqrstuvwxyz'') c of
        Some l \<Rightarrow> l
      | None \<Rightarrow> c)"

text \<open>\<^verbatim>\<open>operator<\<close> on \<^verbatim>\<open>std::string\<close>: bytes compared as unsigned values.\<close>

fun str_less :: "string \<Rightarrow> string \<Rightarrow> bool" where
  "str_less [] [] = False"
| "str_less [] (y # ys) = True"
| "str_less (x # xs) [] = False"
| "str_less (x # xs) (y # ys) =
     (if (of_char x :: nat) < of_char y then True
      else if (of_char y :: nat) < of_char x then False
      else str_less xs ys)"

subsection \<open>The explorer object and what it prints\<close>

record explorer =
  currentPath :: string
  fileList :: "string list"
  recentFiles :: "string list"
  maxRecentFiles :: nat
  currentTheme :: string

text \<open>One constructor for each line an operation can print (colours left out).\<close>

datatype message =
    ChangedDirectoryTo string
  | ErrCannotAccessDirectory
  | ErrDirectoryDoesNotExist
  | FileCreated string
  | ErrCannotCreateFile
  | DirectoryCreated string
  | ErrCannotCreateDirectory
  | ErrItemDoesNotExist
  | DirectoryDeleted string
  | AskDeleteRecursively
  | DirectoryAndContentsDeleted string
  | ErrCannotDeleteDirectory
  | OperationCancelled
  | FileDeleted string
  | ErrCannotDeleteFile
  | ErrSourceDoesNotExist
  | CopyingDirectoryRecursively
  | DirectoryCopied string string
  | ErrCannotCopyDirectory
  | FileCopied string string
  | ErrCannotCopyFile
  | ErrAlreadyExistsInDestination string
  | ErrDestinationExistsAsFile
  | DirectoryMovedTo string
  | FileMovedTo string
  | CrossFilesystemMoveDetected
  | ErrCopiedButCouldNotDeleteSourceDirectory
  | ErrCannotMoveDirectory
  | ErrCopiedButCouldNotDeleteSourceFile
  | ErrCannotMoveFile
  | ErrNameAlreadyExists string
  | DirectoryRenamed string string
  | FileRenamed string string
  | ErrCannotRenameItem
  | NoFilesFoundMatching string
  | SearchResultsFor string "string list"
  | ErrCannotOpenDirectory
  | Listing string "string list"
  | ErrFileDoesNotExist
  | PermissionsFor string mode_t
  | ErrInvalidPermissionFormat
  | PermissionsChanged string
  | ErrCannotChangePermissions
  | ErrInvalidOwner
  | ErrInvalidGroup
  | OwnerChanged string
  | ErrCannotChangeOwner
  | ThemeChangedTo string
  | ErrInvalidTheme

definition addToRecentFiles :: "explorer \<Rightarrow> string \<Rightarrow> explorer" where
  "addToRecentFiles e filepath =
     (let r = filepath # remove1 filepath (recentFiles e)
      in e\<lparr>recentFiles := (if length r > maxRecentFiles e then butlast r else r)\<rparr>)"

subsection \<open>Navigation\<close>

definition changeDirectory :: "explorer \<Rightarrow> world \<Rightarrow> string \<Rightarrow> message list \<times> explorer \<times> world" where
  "changeDirectory e w path =
     (let newPath =
            (if path = ''..'' then
               (case find_last_of (currentPath e) CHR ''/'' of
                  Some pos \<Rightarrow> if pos \<noteq> 0 then take pos (currentPath e) else ''/''
                | None \<Rightarrow> ''/'')
             else if path \<noteq> [] \<and> hd path = CHR ''/'' then path
             else currentPath e @ ''/'' @ path)
      in case stat w newPath of
           None \<Rightarrow> ([ErrDirectoryDoesNotExist], e, w)
         | Some pathStat \<Rightarrow>
             if S_ISDIR pathStat then
               (let e' = e\<lparr>currentPath := newPath\<rparr>
                in case chdir w (currentPath e') of
                     (ok, w') \<Rightarrow>
                       if ok then ([ChangedDirectoryTo (currentPath e')], e', w')
                       else ([ErrCannotAccessDirectory], e', w'))
             else ([ErrDirectoryDoesNotExist], e, w))"

subsection \<open>Creating\<close>

definition createFile :: "explorer \<Rightarrow> world \<Rightarrow> string \<Rightarrow> message list \<times> explorer \<times> world" where
  "createFile e w filename =
     (let fullPath = currentPath e @ ''/'' @ filename
      in case ofstream_open w fullPath of
           (ok, w') \<Rightarrow>
             if ok then ([FileCreated filename], addToRecentFiles e fullPath, w')
             else ([ErrCannotCreateFile], e, w'))"

definition createDirectory :: "explorer \<Rightarrow> world \<Rightarrow> string \<Rightarrow> message list \<times> explorer \<times> world" where
  "createDirectory e w dirname =
     (let fullPath = currentPath e @ ''/'' @ dirname
      in case mkdir w fullPath 493 of
           (ok, w') \<Rightarrow>
             if ok then ([DirectoryCreated dirname], e, w')
             else ([ErrCannotCreateDirectory], e, w'))"

subsection \<open>Deleting\<close>

text \<open>
  The recursion of \<^verbatim>\<open>deleteDirectoryRecursive\<close> follows the store, which it changes as it
  goes; the model bounds its depth by a counter and returns \<open>None\<close> when the counter
  runs out. \<open>delete_entries\<close> is the \<^verbatim>\<open>while ((entry = readdir(dir)) != NULL)\<close> loop
  over the names of the opened directory.
\<close>

fun deleteDirectoryRecursive :: "nat \<Rightarrow> world \<Rightarrow> string \<Rightarrow> (bool \<times> world) option"
  and delete_entries :: "nat \<Rightarrow> world \<Rightarrow> string \<Rightarrow> string list \<Rightarrow> (bool \<times> world) option"
where
  "deleteDirectoryRecursive 0 w path = None"
| "deleteDirectoryRecursive (Suc k) w path =
     (case opendir w path of
        None \<Rightarrow> Some (False, w)
      | Some names \<Rightarrow>
          (case delete_entries k w path names of
             None \<Rightarrow> None
           | Some (success, w1) \<Rightarrow>
               if success then Some (rmdir w1 path) else Some (False, w1)))"
| "delete_entries k w path [] = Some (True, w)"
| "delete_entries k w path (filename # rest) =
     (if filename = ''.'' \<or> filename = ''..'' then delete_entries k w path rest
      else
        (case stat w (path @ ''/'' @ filename) of
           None \<Rightarrow> delete_entries k w path rest
         | Some fileStat \<Rightarrow>
             if S_ISDIR fileStat then
               (case deleteDirectoryRecursive k w (path @ ''/'' @ filename) of
                  None \<Rightarrow> None
                | Some (ok, w1) \<Rightarrow>
                    if ok then delete_entries k w1 path rest else Some (False, w1))
             else
               (case unlink w (path @ ''/'' @ filename) of
                  (ok, w1) \<Rightarrow>
                    if ok then delete_entries k w1 path rest else Some (False, w1))))"

text \<open>\<open>confirm\<close> is the line read from standard input when the prompt is reached.\<close>

definition deleteItem ::
  "nat \<Rightarrow> explorer \<Rightarrow> world \<Rightarrow> string \<Rightarrow> string \<Rightarrow> (message list \<times> explorer \<times> world) option" where
  "deleteItem fuel e w name confirm =
     (let fullPath = currentPath e @ ''/'' @ name
      in case stat w fullPath of
           None \<Rightarrow> Some ([ErrItemDoesNotExist], e, w)
         | Some pathStat \<Rightarrow>
             if S_ISDIR pathStat then
               (case rmdir w fullPath of
                  (ok, w1) \<Rightarrow>
                    if ok then Some ([DirectoryDeleted name], e, w1)
                    else if confirm = ''yes'' then
                      (case deleteDirectoryRecursive fuel w1 fullPath of
                         None \<Rightarrow> None
                       | Some (deleted, w2) \<Rightarrow>
                           if deleted
                           then Some ([AskDeleteRecursively, DirectoryAndContentsDeleted name], e, w2)
                           else Some ([AskDeleteRecursively, ErrCannotDeleteDirectory], e, w2))
                    else Some ([AskDeleteRecursively, OperationCancelled], e, w1))
             else
               (case unlink w fullPath of
                  (ok, w1) \<Rightarrow>
                    if ok then Some ([FileDeleted name], e, w1)
                    else Some ([ErrCannotDeleteFile], e, w1)))"

subsection \<open>Copying\<close>

definition copyFileInternal :: "world \<Rightarrow> string \<Rightarrow> string \<Rightarrow> bool \<times> world" where
  "copyFileInternal w srcPath destPath =
     (if \<not> ifstream_open w srcPath then (False, w)
      else
        (case ofstream_open w destPath of
           (ok, w1) \<Rightarrow>
             if \<not> ok then (False, w1)
             else
               (let w2 = write_bytes w1 destPath (rdbuf w1 srcPath)
                in case stat w2 srcPath of
                     Some srcStat \<Rightarrow> (True, snd (chmod w2 destPath srcStat))
                   | None \<Rightarrow> (True, w2))))"

fun copyDirectoryRecursive :: "nat \<Rightarrow> world \<Rightarrow> string \<Rightarrow> string \<Rightarrow> (bool \<times> world) option"
  and copy_entries :: "nat \<Rightarrow> world \<Rightarrow> string \<Rightarrow> string \<Rightarrow> string list \<Rightarrow> (bool \<times> world) option"
where
  "copyDirectoryRecursive 0 w srcPath destPath = None"
| "copyDirectoryRecursive (Suc k) w srcPath destPath =
     (case stat w srcPath of
        None \<Rightarrow> Some (False, w)
      | Some srcStat \<Rightarrow>
          (case mkdir w destPath srcStat of
             (made, w1) \<Rightarrow>
               if \<not> made then Some (False, w1)
               else
                 (case opendir w1 srcPath of
                    None \<Rightarrow> Some (False, w1)
                  | Some names \<Rightarrow> copy_entries k w1 srcPath destPath names)))"
| "copy_entries k w srcPath destPath [] = Some (True, w)"
| "copy_entries k w srcPath destPath (filename # rest) =
     (if filename = ''.'' \<or> filename = ''..'' then copy_entries k w srcPath destPath rest
      else
        (case stat w (srcPath @ ''/'' @ filename) of
           None \<Rightarrow> copy_entries k w srcPath destPath rest
         | Some fileStat \<Rightarrow>
             if S_ISDIR fileStat then
               (case copyDirectoryRecursive k w (srcPath @ ''/'' @ filename)
                       (destPath @ ''/'' @ filename) of
                  None \<Rightarrow> None
                | Some (ok, w1) \<Rightarrow>
                    if ok then copy_entries k w1 srcPath destPath rest else Some (False, w1))
             else
               (case copyFileInternal w (srcPath @ ''/'' @ filename)
                       (destPath @ ''/'' @ filename) of
                  (ok, w1) \<Rightarrow>
                    if ok then copy_entries k w1 srcPath destPath rest else Some (False, w1))))"

definition copyFile ::
  "nat \<Rightarrow> explorer \<Rightarrow> world \<Rightarrow> string \<Rightarrow> string \<Rightarrow> (message list \<times> explorer \<times> world) option" where
  "copyFile fuel e w source destination =
     (let srcPath = currentPath e @ ''/'' @ source;
          destPath = (if destination \<noteq> [] \<and> hd destination = CHR ''/'' then destination
                      else currentPath e @ ''/'' @ destination)
      in case stat w srcPath of
           None \<Rightarrow> Some ([ErrSourceDoesNotExist], e, w)
         | Some srcStat \<Rightarrow>
             if S_ISDIR srcStat then
               (case copyDirectoryRecursive fuel w srcPath destPath of
                  None \<Rightarrow> None
                | Some (ok, w1) \<Rightarrow>
                    if ok
                    then Some ([CopyingDirectoryRecursively, DirectoryCopied source destination], e, w1)
                    else Some ([CopyingDirectoryRecursively, ErrCannotCopyDirectory], e, w1))
             else
               (case copyFileInternal w srcPath destPath of
                  (ok, w1) \<Rightarrow>
                    if ok then Some ([FileCopied source destination], e, w1)
                    else Some ([ErrCannotCopyFile], e, w1)))"

subsection \<open>Moving and renaming\<close>

definition moveFile ::
  "nat \<Rightarrow> explorer \<Rightarrow> world \<Rightarrow> string \<Rightarrow> string \<Rightarrow> (message list \<times> explorer \<times> world) option" where
  "moveFile fuel e w source destination =
     (let srcPath = currentPath e @ ''/'' @ source;
          destPath = (if destination \<noteq> [] \<and> hd destination = CHR ''/'' then destination
                      else currentPath e @ ''/'' @ destination)
      in case stat w srcPath of
           None \<Rightarrow> Some ([ErrSourceDoesNotExist], e, w)
         | Some srcStat \<Rightarrow>
             (case (case stat w destPath of
                      None \<Rightarrow> Inr destPath
                    | Some destStat \<Rightarrow>
                        if S_ISDIR destStat then
                          (let sourceName = (case find_last_of source CHR ''/'' of
                                               Some lastSlash \<Rightarrow> drop (lastSlash + 1) source
                                             | None \<Rightarrow> source)
                           in if stat w (destPath @ ''/'' @ sourceName) \<noteq> None
                              then Inl (ErrAlreadyExistsInDestination sourceName)
                              else Inr (destPath @ ''/'' @ sourceName))
                        else Inl ErrDestinationExistsAsFile) of
                Inl err \<Rightarrow> Some ([err], e, w)
              | Inr destPath' \<Rightarrow>
                  (case rename w srcPath destPath' of
                     (renamed, w1) \<Rightarrow>
                       if renamed then
                         Some ([if S_ISDIR srcStat then DirectoryMovedTo destPath'
                                else FileMovedTo destPath'], e, w1)
                       else if S_ISDIR srcStat then
                         (case copyDirectoryRecursive fuel w1 srcPath destPath' of
                            None \<Rightarrow> None
                          | Some (copied, w2) \<Rightarrow>
                              if copied then
                                (case deleteDirectoryRecursive fuel w2 srcPath of
                                   None \<Rightarrow> None
                                 | Some (deleted, w3) \<Rightarrow>
                                     Some ([CrossFilesystemMoveDetected,
                                            if deleted then DirectoryMovedTo destPath'
                                            else ErrCopiedButCouldNotDeleteSourceDirectory], e, w3))
                              else Some ([CrossFilesystemMoveDetected, ErrCannotMoveDirectory], e, w2))
                       else
                         (case copyFileInternal w1 srcPath destPath' of
                            (copied, w2) \<Rightarrow>
                              if copied then
                                (case unlink w2 srcPath of
                                   (deleted, w3) \<Rightarrow>
                                     Some ([CrossFilesystemMoveDetected,
                                            if deleted then FileMovedTo destPath'
                                            else ErrCopiedButCouldNotDeleteSourceFile], e, w3))
                              else Some ([CrossFilesystemMoveDetected, ErrCannotMoveFile], e, w2)))))"

definition renameItem :: "explorer \<Rightarrow> world \<Rightarrow> string \<Rightarrow> string \<Rightarrow> message list \<times> explorer \<times> world" where
  "renameItem e w oldName newName =
     (let oldPath = currentPath e @ ''/'' @ oldName;
          newPath = currentPath e @ ''/'' @ newName
      in case stat w oldPath of
           None \<Rightarrow> ([ErrItemDoesNotExist], e, w)
         | Some srcStat \<Rightarrow>
             if stat w newPath \<noteq> None then ([ErrNameAlreadyExists newName], e, w)
             else
               (case rename w oldPath newPath of
                  (ok, w1) \<Rightarrow>
                    if ok then
                      ([if S_ISDIR srcStat then DirectoryRenamed oldName newName
                        else FileRenamed oldName newName], e, w1)
                    else ([ErrCannotRenameItem], e, w1)))"

subsection \<open>Searching\<close>

fun searchRecursive :: "nat \<Rightarrow> world \<Rightarrow> string \<Rightarrow> string \<Rightarrow> string list \<Rightarrow> string list option"
  and search_entries ::
    "nat \<Rightarrow> world \<Rightarrow> string \<Rightarrow> string \<Rightarrow> string list \<Rightarrow> string list \<Rightarrow> string list option"
where
  "searchRecursive 0 w path searchTerm results = None"
| "searchRecursive (Suc k) w path searchTerm results =
     (case opendir w path of
        None \<Rightarrow> Some results
      | Some names \<Rightarrow> search_entries k w path searchTerm names results)"
| "search_entries k w path searchTerm [] results = Some results"
| "search_entries k w path searchTerm (filename # rest) results =
     (if filename = ''.'' \<or> filename = ''..'' then search_entries k w path searchTerm rest results
      else
        (case stat w (path @ ''/'' @ filename) of
           None \<Rightarrow> search_entries k w path searchTerm rest results
         | Some fileStat \<Rightarrow>
             (let results1 =
                    (if str_find (map tolower filename) (map tolower searchTerm) \<noteq> None
                     then results @ [if S_ISDIR fileStat then path @ ''/'' @ filename @ ''/''
                                     else path @ ''/'' @ filename]
                     else results)
              in if S_ISDIR fileStat then
                   (case searchRecursive k w (path @ ''/'' @ filename) searchTerm results1 of
                      None \<Rightarrow> None
                    | Some results2 \<Rightarrow> search_entries k w path searchTerm rest results2)
                 else search_entries k w path searchTerm rest results1)))"

definition searchFiles ::
  "nat \<Rightarrow> explorer \<Rightarrow> world \<Rightarrow> string \<Rightarrow> string \<Rightarrow> (message list \<times> explorer \<times> world) option" where
  "searchFiles fuel e w searchTerm searchPath =
     (let basePath = (if searchPath = [] then currentPath e else searchPath)
      in case searchRecursive fuel w basePath searchTerm [] of
           None \<Rightarrow> None
         | Some results \<Rightarrow>
             if results = [] then Some ([NoFilesFoundMatching searchTerm], e, w)
             else Some ([SearchResultsFor searchTerm results], e, w))"

subsection \<open>Listing\<close>

text \<open>
  The order of the listing, as the comparator given to \<^verbatim>\<open>std::sort\<close> defines it:
  directories first, then by name. Names in one directory differ, so the order is total
  and any sorting procedure gives the same list.
\<close>

definition entry_less :: "string \<times> bool \<Rightarrow> string \<times> bool \<Rightarrow> bool" where
  "entry_less a b = (if snd a \<noteq> snd b then snd a \<and> \<not> snd b else str_less (fst a) (fst b))"

fun insert_entry :: "string \<times> bool \<Rightarrow> (string \<times> bool) list \<Rightarrow> (string \<times> bool) list" where
  "insert_entry a [] = [a]"
| "insert_entry a (b # bs) = (if entry_less b a then b # insert_entry a bs else a # b # bs)"

definition sort_entries :: "(string \<times> bool) list \<Rightarrow> (string \<times> bool) list" where
  "sort_entries xs = foldr insert_entry xs []"

text \<open>
  \<^verbatim>\<open>listFiles\<close>: the member \<^verbatim>\<open>fileList\<close> is cleared first and refilled with the sorted
  names. Of the printed text the model keeps the directory and the names shown; the
  columns of the detailed form are left out.
\<close>

definition listFiles :: "explorer \<Rightarrow> world \<Rightarrow> bool \<Rightarrow> message list \<times> explorer \<times> world" where
  "listFiles e w detailed =
     (let e0 = e\<lparr>fileList := []\<rparr>
      in case opendir w (currentPath e0) of
           None \<Rightarrow> ([ErrCannotOpenDirectory], e0, w)
         | Some names \<Rightarrow>
             (let entries =
                    sort_entries
                      (concat (map (\<lambda>filename.
                          case stat w (currentPath e0 @ ''/'' @ filename) of
                            None \<Rightarrow> []
                          | Some fileStat \<Rightarrow> [(filename, S_ISDIR fileStat)]) names));
                  shown = filter (\<lambda>entry. stat w (currentPath e0 @ ''/'' @ fst entry) \<noteq> None) entries
              in ([Listing (currentPath e0) (map fst shown)],
                  e0\<lparr>fileList := map fst shown\<rparr>, w)))"

subsection \<open>Permissions, owners, theme\<close>

definition viewPermissions :: "explorer \<Rightarrow> world \<Rightarrow> string \<Rightarrow> message list \<times> explorer \<times> world" where
  "viewPermissions e w filename =
     (case stat w (currentPath e @ ''/'' @ filename) of
        None \<Rightarrow> ([ErrFileDoesNotExist], e, w)
      | Some fileStat \<Rightarrow> ([PermissionsFor filename fileStat], e, w))"

text \<open>
  \<^verbatim>\<open>std::stoi(s, nullptr, 8)\<close>: leading white space, an optional sign, then the longest
  run of octal digits; \<open>None\<close> when no digit is found or the value does not fit an
  \<^verbatim>\<open>int\<close> (the two exceptions the callers catch).
\<close>

definition octal_digits :: "string \<Rightarrow> string" where
  "octal_digits s = takeWhile (\<lambda>c. c \<in> set ''01234567'') s"

definition octal_value :: "string \<Rightarrow> int" where
  "octal_value ds = foldl (\<lambda>v c. 8 * v + (int (of_char c) - 48)) 0 ds"

definition stoi8 :: "string \<Rightarrow> int option" where
  "stoi8 s =
     (let t = dropWhile (\<lambda>c. c \<in> set [CHR '' '', CHR 0x09, CHR 0x0A, CHR 0x0B, CHR 0x0C, CHR 0x0D]) s;
          neg = (t \<noteq> [] \<and> hd t = CHR ''-'');
          u = (if t \<noteq> [] \<and> (hd t = CHR ''-'' \<or> hd t = CHR ''+'') then tl t else t);
          ds = octal_digits u;
          v = (if neg then - octal_value ds else octal_value ds)
      in if ds = [] then None
         else if v < - (2 ^ 31) \<or> 2 ^ 31 - 1 < v then None
         else Some v)"

definition changePermissions ::
  "explorer \<Rightarrow> world \<Rightarrow> string \<Rightarrow> string \<Rightarrow> message list \<times> explorer \<times> world" where
  "changePermissions e w filename permissions =
     (case stoi8 permissions of
        None \<Rightarrow> ([ErrInvalidPermissionFormat], e, w)
      | Some m \<Rightarrow>
          (case chmod w (currentPath e @ ''/'' @ filename) (word_of_int m) of
             (ok, w1) \<Rightarrow>
               if ok then ([PermissionsChanged filename], e, w1)
               else ([ErrCannotChangePermissions], e, w1)))"

definition changeOwner ::
  "explorer \<Rightarrow> world \<Rightarrow> string \<Rightarrow> string \<Rightarrow> string \<Rightarrow> message list \<times> explorer \<times> world" where
  "changeOwner e w filename owner grp =
     (if owner \<noteq> [] \<and> map_of (passwd w) owner = None then ([ErrInvalidOwner], e, w)
      else if grp \<noteq> [] \<and> map_of (groups w) grp = None then ([ErrInvalidGroup], e, w)
      else
        (case chown w (currentPath e @ ''/'' @ filename)
                (if owner = [] then None else map_of (passwd w) owner)
                (if grp = [] then None else map_of (groups w) grp) of
           (ok, w1) \<Rightarrow>
             if ok then ([OwnerChanged filename], e, w1)
             else ([ErrCannotChangeOwner], e, w1)))"

definition changeTheme :: "explorer \<Rightarrow> world \<Rightarrow> string \<Rightarrow> message list \<times> explorer \<times> world" where
  "changeTheme e w theme =
     (if theme = ''default'' \<or> theme = ''dark'' \<or> theme = ''light''
      then ([ThemeChangedTo theme], e\<lparr>currentTheme := theme\<rparr>, w)
      else ([ErrInvalidTheme], e, w))"

section \<open>\<^verbatim>\<open>file_explorer.cpp\<close>: the explorer on \<^verbatim>\<open>std::filesystem\<close>\<close>

text \<open>
  The second program of the repository keeps its own current directory and calls the
  \<^verbatim>\<open>std::filesystem\<close> library, always in the form that reports through an
  \<^verbatim>\<open>error_code\<close>. The library functions are modelled on the same store by what the
  C++ standard and its GNU implementation make them do.
\<close>

subsection \<open>\<^verbatim>\<open>fs::path\<close>\<close>

definition is_absolute :: "string \<Rightarrow> bool" where
  "is_absolute s = (s \<noteq> [] \<and> hd s = CHR ''/'')"

text \<open>\<^verbatim>\<open>p / q\<close>: an absolute \<open>q\<close> replaces \<open>p\<close>; otherwise one separator joins them.\<close>

definition path_append :: "string \<Rightarrow> string \<Rightarrow> string" where
  "path_append p q =
     (if is_absolute q then q
      else if p = [] then q
      else if last p = CHR ''/'' then p @ q
      else p @ ''/'' @ q)"

definition filename_of :: "string \<Rightarrow> string" where
  "filename_of s = rev (takeWhile (\<lambda>c. c \<noteq> CHR ''/'') (rev s))"

definition parent_path :: "string \<Rightarrow> string" where
  "parent_path s =
     (let t = rev (dropWhile (\<lambda>c. c \<noteq> CHR ''/'') (rev s));
          u = rev (dropWhile (\<lambda>c. c = CHR ''/'') (rev t))
      in if u = [] \<and> t \<noteq> [] then ''/'' else u)"

fun join_slash :: "string list \<Rightarrow> string" where
  "join_slash [] = []"
| "join_slash [c] = c"
| "join_slash (c # cs) = c @ ''/'' @ join_slash cs"

definition lexically_normal :: "string list \<Rightarrow> string list \<Rightarrow> string list" where
  "lexically_normal cur cs =
     foldl (\<lambda>acc c. if c = ''.'' then acc else if c = ''..'' then butlast acc else acc @ [c]) cur cs"

text \<open>
  \<^verbatim>\<open>weakly_canonical\<close>: the existing part of the path is resolved on the store, the rest
  is appended and normalised by its text alone. \<open>None\<close>: a directory on the way may not
  be searched (the error code is set). When the path does not exist and its text ends
  in a slash, in \<^verbatim>\<open>.\<close> or in \<^verbatim>\<open>..\<close>, the normal form keeps a slash at its end.
\<close>

fun weak_walk :: "node \<Rightarrow> string list \<Rightarrow> string list \<Rightarrow> string list option" where
  "weak_walk r cur [] = Some cur"
| "weak_walk r cur (c # cs) =
     (case lookup r cur of
        Some (Dir m d es) \<Rightarrow>
          if m AND S_IXUSR = 0 then None
          else if c = ''.'' then weak_walk r cur cs
          else if c = ''..'' then weak_walk r (butlast cur) cs
          else weak_walk r (cur @ [c]) cs
      | _ \<Rightarrow> Some (lexically_normal cur (c # cs)))"

definition canonical_pieces :: "world \<Rightarrow> string \<Rightarrow> string list option" where
  "canonical_pieces w s = weak_walk (root w) (if is_absolute s then [] else cwd w) (components s)"

definition weakly_canonical :: "world \<Rightarrow> string \<Rightarrow> string option" where
  "weakly_canonical w s =
     map_option
       (\<lambda>cs. ''/'' @ join_slash cs
             @ (if cs \<noteq> [] \<and> s \<noteq> [] \<and> node_at w s = None
                   \<and> (last s = CHR ''/'' \<or> ends_in_dot s)
                then ''/'' else []))
       (canonical_pieces w s)"

fun common_prefix :: "string list \<Rightarrow> string list \<Rightarrow> nat" where
  "common_prefix (a # as) (b # bs) = (if a = b then Suc (common_prefix as bs) else 0)"
| "common_prefix as bs = 0"

text \<open>
  \<^verbatim>\<open>fs::relative(p, base, ec)\<close>: both made weakly canonical, then compared piece by piece;
  the empty path on an error.
\<close>

definition relative :: "world \<Rightarrow> string \<Rightarrow> string \<Rightarrow> string" where
  "relative w p base =
     (case canonical_pieces w p of
        None \<Rightarrow> []
      | Some a \<Rightarrow>
          (case canonical_pieces w base of
             None \<Rightarrow> []
           | Some b \<Rightarrow>
               if a = b then ''.''
               else join_slash (replicate (length b - common_prefix a b) ''..''
                                @ drop (common_prefix a b) a)))"

subsection \<open>The library calls\<close>

definition fs_exists :: "world \<Rightarrow> string \<Rightarrow> bool" where
  "fs_exists w p = (stat w p \<noteq> None)"

definition fs_is_directory :: "world \<Rightarrow> string \<Rightarrow> bool" where
  "fs_is_directory w p = (case stat w p of Some m \<Rightarrow> S_ISDIR m | None \<Rightarrow> False)"

text \<open>
  What a directory iterator sees once the directory is open: the names (without \<^verbatim>\<open>.\<close>
  and \<^verbatim>\<open>..\<close>) and, from the directory entry itself, whether each is a directory.
\<close>

definition opendir_entries :: "world \<Rightarrow> string \<Rightarrow> (string \<times> bool) list option" where
  "opendir_entries w s =
     (case node_at w s of
        Some (Dir m d es) \<Rightarrow>
          if m AND S_IRUSR \<noteq> 0 then Some (map (\<lambda>e. (fst e, is_dir (snd e))) es) else None
      | _ \<Rightarrow> None)"

text \<open>
  \<^verbatim>\<open>create_directories(p, ec)\<close> makes every missing directory on the way to \<open>p\<close>, each
  with \<^verbatim>\<open>0777 & ~umask\<close>. The result is (the last directory was created, no error).
\<close>

fun make_missing :: "world \<Rightarrow> string \<Rightarrow> string list \<Rightarrow> bool \<Rightarrow> (bool \<times> bool) \<times> world" where
  "make_missing w pre [] created = ((created, True), w)"
| "make_missing w pre (c # cs) created =
     (case stat w (pre @ c) of
        Some m \<Rightarrow>
          if S_ISDIR m then make_missing w (pre @ c @ ''/'') cs False
          else ((False, False), w)
      | None \<Rightarrow>
          (case mkdir w (pre @ c) 511 of
             (ok, w1) \<Rightarrow>
               if ok then make_missing w1 (pre @ c @ ''/'') cs True
               else ((False, False), w1)))"

definition create_directories :: "world \<Rightarrow> string \<Rightarrow> (bool \<times> bool) \<times> world" where
  "create_directories w p =
     (if p = [] then ((False, False), w)
      else make_missing w (if is_absolute p then ''/'' else []) (components p) False)"

text \<open>
  \<^verbatim>\<open>copy_file(from, to, overwrite_existing, ec)\<close>: \<open>from\<close> must be a readable regular
  file, \<open>to\<close> a different file or absent; the target is opened (created with \<^verbatim>\<open>0200\<close>),
  given the mode of \<open>from\<close>, and filled with its bytes.
\<close>

definition copy_file :: "world \<Rightarrow> string \<Rightarrow> string \<Rightarrow> bool \<times> world" where
  "copy_file w from to =
     (case node_at w from of
        Some (File m b) \<Rightarrow>
          if (case node_at w to of Some n \<Rightarrow> is_dir n | None \<Rightarrow> False) then (False, w)
          else if node_at w to \<noteq> None \<and> resolve w to = resolve w from then (False, w)
          else if m AND S_IRUSR = 0 then (False, w)
          else
            (case open_trunc w to S_IWUSR of
               (ok, w1) \<Rightarrow>
                 if \<not> ok then (False, w1)
                 else (True, write_bytes (snd (chmod w1 to (st_mode_of (File m b)))) to b))
      | _ \<Rightarrow> (False, w))"

text \<open>
  \<^verbatim>\<open>remove_all(p, ec)\<close> empties a directory depth first and stops at the first entry it
  cannot remove. \<open>remains n\<close> is what it leaves of the node \<open>n\<close> (\<open>None\<close>: nothing but the
  entry itself, which the caller removes).
\<close>

fun remains :: "node \<Rightarrow> node option"
  and remains_list :: "(string \<times> node) list \<Rightarrow> (string \<times> node) list"
where
  "remains (File m b) = None"
| "remains (Dir m d es) =
     (if m AND S_IRUSR = 0 then Some (Dir m d es)
      else if es = [] then None
      else if m AND S_IWUSR = 0 \<or> m AND S_IXUSR = 0 then Some (Dir m d es)
      else (case remains_list es of [] \<Rightarrow> None | e # es' \<Rightarrow> Some (Dir m d (e # es'))))"
| "remains_list [] = []"
| "remains_list (e # es) =
     (case remains (snd e) of
        None \<Rightarrow> remains_list es
      | Some n \<Rightarrow> (fst e, n) # es)"

fun emptied :: "node \<Rightarrow> node" where
  "emptied (File m b) = File m b"
| "emptied (Dir m d es) = Dir m d []"

definition remove_all :: "world \<Rightarrow> string \<Rightarrow> bool \<times> world" where
  "remove_all w s =
     (case resolve w s of
        None \<Rightarrow> failed (RemoveAll s) w
      | Some p \<Rightarrow>
          (case lookup (root w) p of
             None \<Rightarrow> (True, logged (RemoveAll s) True w)
           | Some n \<Rightarrow>
               (case remains n of
                  Some n' \<Rightarrow> (False, (logged (RemoveAll s) False w)\<lparr>root := alter p (Some n') (root w)\<rparr>)
                | None \<Rightarrow>
                    if parent_writable (root w) p
                    then done_with (RemoveAll s) (alter p None (root w)) w
                    else (False, (logged (RemoveAll s) False w)
                                   \<lparr>root := alter p (Some (emptied n)) (root w)\<rparr>))))"

subsection \<open>The explorer object and what it prints\<close>

datatype SortBy = NAME | SIZE | MTIME

record explorer_fs =
  current :: string
  showHidden :: bool
  sortBy :: SortBy
  dirsFirst :: bool

datatype message_fs =
    MsgShowHidden bool
  | MsgPathDoesNotExist string
  | MsgListing string "string list"
  | MsgInvalidPath string
  | MsgNotADirectory string
  | MsgChangedDirectoryTo string
  | MsgDirectoryCreated string
  | MsgFailedToCreateDirectory string
  | MsgFileCreated string
  | MsgFailedToCreateFile string
  | MsgNoSuchFileOrDirectory
  | MsgPreview string "string list"
  | MsgNotFound string
  | MsgAreYouSure string
  | MsgAborted
  | MsgFailedToDelete
  | MsgDeleted string
  | MsgSourceNotFound string
  | MsgFailedCopy string string
  | MsgFailed
  | MsgCopyComplete
  | MsgSearching string string
  | MsgHit string
  | MsgFoundItems nat
  | MsgChmodFailed
  | MsgPermissionsChanged
  | MsgInvalidMode string
  | MsgRenameFailed
  | MsgRenamed
  | MsgMoveFailed
  | MsgMoved

text \<open>How a call ends: with its return value, or in an exception that nothing catches.\<close>

datatype ending = Returns bool | Terminates

definition in_current :: "explorer_fs \<Rightarrow> string \<Rightarrow> string" where
  "in_current e name = (if is_absolute name then name else path_append (current e) name)"

subsection \<open>The operations\<close>

definition toggleHidden :: "explorer_fs \<Rightarrow> world \<Rightarrow> message_fs list \<times> explorer_fs \<times> world" where
  "toggleHidden e w =
     (let e' = e\<lparr>showHidden := \<not> showHidden e\<rparr> in ([MsgShowHidden (showHidden e')], e', w))"

definition setSort :: "explorer_fs \<Rightarrow> world \<Rightarrow> SortBy \<Rightarrow> bool \<Rightarrow> message_fs list \<times> explorer_fs \<times> world" where
  "setSort e w s df = ([], e\<lparr>sortBy := s, dirsFirst := df\<rparr>, w)"

text \<open>
  \<^verbatim>\<open>readDirectory\<close> and \<^verbatim>\<open>list\<close>: the model keeps which names are shown and how they are
  marked; \<^verbatim>\<open>sortEntries\<close> only reorders them, and that order (which may depend on time
  stamps) and the columns of the detailed form are left out.
\<close>

definition readDirectory ::
  "explorer_fs \<Rightarrow> world \<Rightarrow> string \<Rightarrow> message_fs list \<times> (string \<times> bool) list" where
  "readDirectory e w p =
     (if \<not> fs_exists w p then ([MsgPathDoesNotExist p], [])
      else
        (case opendir_entries w p of
           None \<Rightarrow> ([], [])
         | Some ents \<Rightarrow>
             ([], filter (\<lambda>x. \<not> (\<not> showHidden e \<and> fst x \<noteq> [] \<and> hd (fst x) = CHR ''.'')) ents)))"

definition list_fs :: "explorer_fs \<Rightarrow> world \<Rightarrow> bool \<Rightarrow> message_fs list \<times> explorer_fs \<times> world" where
  "list_fs e w detailed =
     (case readDirectory e w (current e) of
        (out, shown) \<Rightarrow>
          (out @ [MsgListing (current e)
                    (map (\<lambda>x. if snd x then fst x @ ''/''
                              else if (case stat w (path_append (current e) (fst x)) of
                                         Some m \<Rightarrow> m AND S_IXUSR \<noteq> 0 | None \<Rightarrow> False)
                                then fst x @ ''*''
                              else fst x) shown)], e, w))"

definition changeDirectory_fs ::
  "explorer_fs \<Rightarrow> world \<Rightarrow> string \<Rightarrow> message_fs list \<times> ending \<times> explorer_fs \<times> world" where
  "changeDirectory_fs e w target =
     (let newp = (if target = [] then home w else target);
          newp = (if \<not> is_absolute newp then path_append (current e) newp else newp)
      in case weakly_canonical w newp of
           None \<Rightarrow> ([MsgInvalidPath target], Returns False, e, w)
         | Some newp \<Rightarrow>
             if \<not> fs_is_directory w newp then ([MsgNotADirectory newp], Returns False, e, w)
             else ([MsgChangedDirectoryTo newp], Returns True, e\<lparr>current := newp\<rparr>, w))"

definition makeDirectory ::
  "explorer_fs \<Rightarrow> world \<Rightarrow> string \<Rightarrow> message_fs list \<times> ending \<times> explorer_fs \<times> world" where
  "makeDirectory e w name =
     (let p = in_current e name
      in case create_directories w p of
           ((created, ok), w1) \<Rightarrow>
             if created then ([MsgDirectoryCreated p], Returns True, e, w1)
             else ([MsgFailedToCreateDirectory p], Returns False, e, w1))"

definition createFile_fs ::
  "explorer_fs \<Rightarrow> world \<Rightarrow> string \<Rightarrow> message_fs list \<times> ending \<times> explorer_fs \<times> world" where
  "createFile_fs e w name =
     (let p = in_current e name
      in case ofstream_open w p of
           (ok, w1) \<Rightarrow>
             if \<not> ok then ([MsgFailedToCreateFile p], Returns False, e, w1)
             else ([MsgFileCreated p], Returns True, e, w1))"

fun text_lines :: "string \<Rightarrow> string list" where
  "text_lines [] = []"
| "text_lines (c # cs) =
     (if c = CHR 0x0A then [] # text_lines cs
      else (case text_lines cs of [] \<Rightarrow> [[c]] | l # ls \<Rightarrow> (c # l) # ls))"

text \<open>\<^verbatim>\<open>previewFile\<close>: the lines shown; the closing truncation mark is left out.\<close>

definition previewFile ::
  "explorer_fs \<Rightarrow> world \<Rightarrow> string \<Rightarrow> nat \<Rightarrow> message_fs list \<times> ending \<times> explorer_fs \<times> world" where
  "previewFile e w name max_lines =
     (let p = in_current e name
      in if \<not> fs_exists w p \<or> fs_is_directory w p
         then ([MsgNoSuchFileOrDirectory], Returns False, e, w)
         else ([MsgPreview p (if ifstream_open w p then take max_lines (text_lines (rdbuf w p)) else [])],
               Returns True, e, w))"

text \<open>\<open>ans\<close> is the line read from standard input after the question.\<close>

definition removeRecursively ::
  "explorer_fs \<Rightarrow> world \<Rightarrow> string \<Rightarrow> string \<Rightarrow> message_fs list \<times> ending \<times> explorer_fs \<times> world" where
  "removeRecursively e w name ans =
     (let p = in_current e name
      in if \<not> fs_exists w p then ([MsgNotFound p], Returns False, e, w)
         else if ans \<noteq> ''y'' \<and> ans \<noteq> ''Y'' then ([MsgAreYouSure p, MsgAborted], Returns False, e, w)
         else
           (case remove_all w p of
              (ok, w1) \<Rightarrow>
                if \<not> ok then ([MsgAreYouSure p, MsgFailedToDelete], Returns False, e, w1)
                else ([MsgAreYouSure p, MsgDeleted p], Returns True, e, w1)))"

text \<open>
  The body of the loop of \<^verbatim>\<open>copyRecursively\<close> for the entry \<open>p\<close> of the tree under \<open>s\<close>.
\<close>

definition copy_entry ::
  "world \<Rightarrow> string \<Rightarrow> string \<Rightarrow> string \<Rightarrow> message_fs list \<times> world" where
  "copy_entry w s d p =
     (let rel = relative w p s;
          target = path_append d rel
      in if fs_is_directory w p then ([], snd (create_directories w target))
         else
           (case copy_file (snd (create_directories w (parent_path target))) p target of
              (ok, w2) \<Rightarrow> (if ok then [] else [MsgFailedCopy p target], w2)))"

text \<open>
  The range-based loop over \<^verbatim>\<open>recursive_directory_iterator(s, ec)\<close>: entries in
  pre-order; after the body has run for a directory the iterator opens it, and where that
  fails its increment throws (first component \<open>False\<close>). The counter bounds the depth.
\<close>

fun walk_copy ::
  "nat \<Rightarrow> world \<Rightarrow> string \<Rightarrow> string \<Rightarrow> string \<Rightarrow> (string \<times> bool) list \<Rightarrow> message_fs list
     \<Rightarrow> (bool \<times> message_fs list \<times> world) option" where
  "walk_copy k w s d dir [] out = Some (True, out, w)"
| "walk_copy k w s d dir (x # rest) out =
     (case copy_entry w s d (path_append dir (fst x)) of
        (said, w1) \<Rightarrow>
          if snd x then
            (case opendir_entries w1 (path_append dir (fst x)) of
               None \<Rightarrow> Some (False, out @ said, w1)
             | Some sub \<Rightarrow>
                 (case k of
                    0 \<Rightarrow> None
                  | Suc k' \<Rightarrow>
                      (case walk_copy k' w1 s d (path_append dir (fst x)) sub (out @ said) of
                         None \<Rightarrow> None
                       | Some (fine, out2, w2) \<Rightarrow>
                           if fine then walk_copy k w2 s d dir rest out2
                           else Some (False, out2, w2))))
          else walk_copy k w1 s d dir rest (out @ said))"

definition copyRecursively ::
  "nat \<Rightarrow> explorer_fs \<Rightarrow> world \<Rightarrow> string \<Rightarrow> string
     \<Rightarrow> (message_fs list \<times> ending \<times> explorer_fs \<times> world) option" where
  "copyRecursively fuel e w src dst =
     (let s = in_current e src;
          d = in_current e dst
      in if \<not> fs_exists w s then Some ([MsgSourceNotFound s], Returns False, e, w)
         else if fs_is_directory w s then
           (case opendir_entries w s of
              None \<Rightarrow> Some ([MsgCopyComplete], Returns True, e, w)
            | Some ents \<Rightarrow>
                (case walk_copy fuel w s d s ents [] of
                   None \<Rightarrow> None
                 | Some (fine, out, w1) \<Rightarrow>
                     if fine then Some (out @ [MsgCopyComplete], Returns True, e, w1)
                     else Some (out, Terminates, e, w1)))
         else
           (case copy_file (snd (create_directories w (parent_path d))) s d of
              (ok, w2) \<Rightarrow>
                if \<not> ok then Some ([MsgFailed], Returns False, e, w2)
                else Some ([MsgCopyComplete], Returns True, e, w2)))"

text \<open>
  The loop of \<^verbatim>\<open>searchRecursive\<close> over
  \<^verbatim>\<open>recursive_directory_iterator(current, skip_permission_denied, ec)\<close>: a directory that
  cannot be opened is passed over.
\<close>

fun walk_search ::
  "nat \<Rightarrow> world \<Rightarrow> string \<Rightarrow> string \<Rightarrow> (string \<times> bool) list \<Rightarrow> string list
     \<Rightarrow> string list option" where
  "walk_search k w term dir [] found = Some found"
| "walk_search k w term dir (x # rest) found =
     (let p = path_append dir (fst x);
          found1 = (if str_find (filename_of p) term \<noteq> None then found @ [p] else found)
      in if snd x then
           (case opendir_entries w p of
              None \<Rightarrow> walk_search k w term dir rest found1
            | Some sub \<Rightarrow>
                (case k of
                   0 \<Rightarrow> None
                 | Suc k' \<Rightarrow>
                     (case walk_search k' w term p sub found1 of
                        None \<Rightarrow> None
                      | Some found2 \<Rightarrow> walk_search k w term dir rest found2)))
         else walk_search k w term dir rest found1)"

definition searchRecursive_fs ::
  "nat \<Rightarrow> explorer_fs \<Rightarrow> world \<Rightarrow> string \<Rightarrow> (message_fs list \<times> explorer_fs \<times> world) option" where
  "searchRecursive_fs fuel e w term =
     (case (case opendir_entries w (current e) of
              None \<Rightarrow> Some []
            | Some ents \<Rightarrow> walk_search fuel w term (current e) ents []) of
        None \<Rightarrow> None
      | Some found \<Rightarrow>
          Some (MsgSearching term (current e) # map MsgHit found @ [MsgFoundItems (length found)],
                e, w))"

definition changePermissions_fs ::
  "explorer_fs \<Rightarrow> world \<Rightarrow> string \<Rightarrow> string \<Rightarrow> message_fs list \<times> ending \<times> explorer_fs \<times> world" where
  "changePermissions_fs e w target mode_str =
     (let p = in_current e target
      in if \<not> fs_exists w p then ([MsgNotFound p], Returns False, e, w)
         else
           (case stoi8 mode_str of
              None \<Rightarrow> ([MsgInvalidMode mode_str], Returns False, e, w)
            | Some m \<Rightarrow>
                (case chmod w p (word_of_int m) of
                   (ok, w1) \<Rightarrow>
                     if \<not> ok then ([MsgChmodFailed], Returns False, e, w1)
                     else ([MsgPermissionsChanged], Returns True, e, w1))))"

definition renameItem_fs ::
  "explorer_fs \<Rightarrow> world \<Rightarrow> string \<Rightarrow> string \<Rightarrow> message_fs list \<times> ending \<times> explorer_fs \<times> world" where
  "renameItem_fs e w oldn newn =
     (case rename w (in_current e oldn) (in_current e newn) of
        (ok, w1) \<Rightarrow>
          if \<not> ok then ([MsgRenameFailed], Returns False, e, w1)
          else ([MsgRenamed], Returns True, e, w1))"

definition moveItem ::
  "explorer_fs \<Rightarrow> world \<Rightarrow> string \<Rightarrow> string \<Rightarrow> message_fs list \<times> ending \<times> explorer_fs \<times> world" where
  "moveItem e w src dst =
     (let s = in_current e src;
          d = in_current e dst
      in case rename (snd (create_directories w (parent_path d))) s d of
           (ok, w2) \<Rightarrow>
             if \<not> ok then ([MsgMoveFailed], Returns False, e, w2)
             else ([MsgMoved], Returns True, e, w2))"

section \<open>Notions the properties are stated with\<close>

subsection \<open>Well-formed trees\<close>

text \<open>
  A name in a directory is not empty, holds no slash and is neither \<^verbatim>\<open>.\<close> nor \<^verbatim>\<open>..\<close>;
  the names of one directory differ. \<open>height\<close> is the depth of a tree: the recursion
  counter of a walk must exceed it.
\<close>

definition valid_name :: "string \<Rightarrow> bool" where
  "valid_name n = (n \<noteq> [] \<and> CHR ''/'' \<notin> set n \<and> n \<noteq> ''.'' \<and> n \<noteq> ''..'')"

fun wf_node :: "node \<Rightarrow> bool" where
  "wf_node (File m b) = True"
| "wf_node (Dir m d es) =
     (distinct (map fst es) \<and> (\<forall>e \<in> set es. valid_name (fst e) \<and> wf_node (snd e)))"

fun height :: "node \<Rightarrow> nat" where
  "height (File m b) = 0"
| "height (Dir m d es) = Suc (foldr (\<lambda>e h. max (height (snd e)) h) es 0)"

fun dir_mode :: "node option \<Rightarrow> mode_t option" where
  "dir_mode (Some (Dir m d es)) = Some m"
| "dir_mode (Some (File m b)) = None"
| "dir_mode None = None"

subsection \<open>What a search should return\<close>

text \<open>
  The entries of the subtree below a directory, in pre-order, each with its base name,
  its full path and whether it is a directory. Nothing below a directory that may not be
  read and searched is counted. This follows the words of the specification, not the
  code.
\<close>

fun subtree_entries :: "string \<Rightarrow> node \<Rightarrow> (string \<times> string \<times> bool) list" where
  "subtree_entries path (File m b) = []"
| "subtree_entries path (Dir m d es) =
     (if m AND S_IRUSR \<noteq> 0 \<and> m AND S_IXUSR \<noteq> 0
      then concat (map (\<lambda>e. (fst e, path @ ''/'' @ fst e, is_dir (snd e))
                              # subtree_entries (path @ ''/'' @ fst e) (snd e)) es)
      else [])"

definition entries_below :: "string \<Rightarrow> (string \<times> node) list \<Rightarrow> (string \<times> string \<times> bool) list" where
  "entries_below path es =
     concat (map (\<lambda>e. (fst e, path @ ''/'' @ fst e, is_dir (snd e))
                        # subtree_entries (path @ ''/'' @ fst e) (snd e)) es)"

text \<open>The base name contains the term, letter case ignored.\<close>

definition name_matches :: "string \<Rightarrow> string \<Rightarrow> bool" where
  "name_matches term n = (\<exists>pre post. map tolower n = pre @ map tolower term @ post)"

text \<open>A result is the full path, a directory with a slash after it.\<close>

definition shown_as :: "string \<times> string \<times> bool \<Rightarrow> string" where
  "shown_as x = (if snd (snd x) then fst (snd x) @ ''/'' else fst (snd x))"

definition matching :: "string \<Rightarrow> (string \<times> string \<times> bool) list \<Rightarrow> string list" where
  "matching term xs = map shown_as (filter (\<lambda>x. name_matches term (fst x)) xs)"

subsection \<open>Reading a trace\<close>

definition strictly_below :: "string \<Rightarrow> string \<Rightarrow> bool" where
  "strictly_below dir s = (take (length dir + 1) s = dir @ ''/'')"

text \<open>An \<^verbatim>\<open>unlink\<close> or \<^verbatim>\<open>rmdir\<close> of something strictly below \<open>dir\<close>.\<close>

definition removes_below :: "string \<Rightarrow> syscall \<times> bool \<Rightarrow> bool" where
  "removes_below dir ev =
     (case fst ev of
        Unlink s \<Rightarrow> strictly_below dir s
      | Rmdir s \<Rightarrow> strictly_below dir s
      | _ \<Rightarrow> False)"

text \<open>
  The events of emptying \<open>dir\<close>: removals below it, none but the last of which failed, and
  none at all failed when the run succeeded.
\<close>

definition delete_run :: "string \<Rightarrow> bool \<Rightarrow> (syscall \<times> bool) list \<Rightarrow> bool" where
  "delete_run dir ok evs =
     (list_all (removes_below dir) evs \<and> list_all snd (butlast evs) \<and> (ok \<longrightarrow> list_all snd evs))"

text \<open>
  The events of deleting \<open>dir\<close> with result \<open>ok\<close>: either the directory was emptied and
  its own \<^verbatim>\<open>rmdir\<close> came last, or emptying failed and no \<^verbatim>\<open>rmdir\<close> of it was tried.
\<close>

definition delete_result :: "string \<Rightarrow> bool \<Rightarrow> (syscall \<times> bool) list \<Rightarrow> bool" where
  "delete_result dir ok evs =
     ((\<exists>evs'. evs = evs' @ [(Rmdir dir, ok)] \<and> delete_run dir True evs')
      \<or> (\<not> ok \<and> delete_run dir False evs))"

definition creating :: "syscall \<times> bool \<Rightarrow> bool" where
  "creating ev =
     (case fst ev of Mkdir s m \<Rightarrow> True | OpenWrite s \<Rightarrow> True | Chmod s m \<Rightarrow> True | _ \<Rightarrow> False)"

definition removing :: "syscall \<times> bool \<Rightarrow> bool" where
  "removing ev = (case fst ev of Unlink s \<Rightarrow> True | Rmdir s \<Rightarrow> True | _ \<Rightarrow> False)"

subsection \<open>What a move should do\<close>

text \<open>\<open>basename\<close>: the text after the last slash.\<close>

definition basename :: "string \<Rightarrow> string" where
  "basename s = rev (takeWhile (\<lambda>c. c \<noteq> CHR ''/'') (rev s))"

text \<open>
  The destination a move settles on, in the words of the specification: \<open>dst\<close> itself
  when nothing is there; \<open>dst/basename(src)\<close> when \<open>dst\<close> is a directory, unless that
  exists; a refusal when \<open>dst\<close> is a file.
\<close>

definition resolved_destination :: "world \<Rightarrow> string \<Rightarrow> string \<Rightarrow> message + string" where
  "resolved_destination w source destPath =
     (case stat w destPath of
        None \<Rightarrow> Inr destPath
      | Some destStat \<Rightarrow>
          if S_ISDIR destStat then
            (if stat w (destPath @ ''/'' @ basename source) \<noteq> None
             then Inl (ErrAlreadyExistsInDestination (basename source))
             else Inr (destPath @ ''/'' @ basename source))
          else Inl ErrDestinationExistsAsFile)"

text \<open>
  After a failed rename: what the removals \<open>devs\<close> may be, given the line printed last.
  Copy failed: nothing was removed. Copied but not deleted: the source itself was not
  removed. Moved: the removal of the source came last.
\<close>

definition fallback_ok :: "string \<Rightarrow> string \<Rightarrow> message \<Rightarrow> (syscall \<times> bool) list \<Rightarrow> bool" where
  "fallback_ok src dst outcome devs =
     (if outcome = ErrCannotMoveDirectory \<or> outcome = ErrCannotMoveFile then devs = []
      else if outcome = ErrCopiedButCouldNotDeleteSourceDirectory
              \<or> outcome = ErrCopiedButCouldNotDeleteSourceFile
        then (Rmdir src, True) \<notin> set devs \<and> (Unlink src, True) \<notin> set devs
      else (outcome = DirectoryMovedTo dst \<or> outcome = FileMovedTo dst)
           \<and> devs \<noteq> [] \<and> (last devs = (Rmdir src, True) \<or> last devs = (Unlink src, True)))"

text \<open>
  The three ways a move of \<open>src\<close> can go, read off what it printed and what it tried:
  refused before anything was tried; renamed, and nothing else; rename failed, then
  creations only (the copy), then removals only (the delete).
\<close>

definition move_protocol :: "string \<Rightarrow> message list \<Rightarrow> (syscall \<times> bool) list \<Rightarrow> bool" where
  "move_protocol src msgs evs =
     ((evs = [] \<and> (\<exists>n. msgs = [ErrSourceDoesNotExist] \<or> msgs = [ErrAlreadyExistsInDestination n]
                        \<or> msgs = [ErrDestinationExistsAsFile]))
      \<or> (\<exists>dst. evs = [(Rename src dst, True)]
               \<and> (msgs = [DirectoryMovedTo dst] \<or> msgs = [FileMovedTo dst]))
      \<or> (\<exists>dst cevs devs outcome.
            evs = (Rename src dst, False) # cevs @ devs
            \<and> list_all creating cevs \<and> list_all removing devs
            \<and> msgs = [CrossFilesystemMoveDetected, outcome]
            \<and> fallback_ok src dst outcome devs))"

subsection \<open>A destination that can be written\<close>

text \<open>
  The resolved path \<open>p\<close> can be opened for writing: nothing is there and its directory is
  writable, or a writable file is there.
\<close>

definition openable :: "world \<Rightarrow> string list \<Rightarrow> bool" where
  "openable w p =
     (case lookup (root w) p of
        None \<Rightarrow> parent_writable (root w) p
      | Some (File m b) \<Rightarrow> m AND S_IWUSR \<noteq> 0
      | Some (Dir m d es) \<Rightarrow> False)"

subsection \<open>What a recursive delete should do\<close>

text \<open>
  A plain path: absolute, no slash at its end, and every piece of it a name (no \<^verbatim>\<open>.\<close>,
  no \<^verbatim>\<open>..\<close>), so that it resolves to its own pieces.
\<close>

definition plain_path :: "string \<Rightarrow> bool" where
  "plain_path s =
     (s \<noteq> [] \<and> hd s = CHR ''/'' \<and> last s \<noteq> CHR ''/'' \<and> list_all valid_name (components s))"

text \<open>
  Nothing stands in the way of removing a tree: every directory in it may be read,
  written and searched.
\<close>

fun removable :: "node \<Rightarrow> bool" where
  "removable (File m b) = True"
| "removable (Dir m d es) =
     (m AND S_IRUSR \<noteq> 0 \<and> m AND S_IWUSR \<noteq> 0 \<and> m AND S_IXUSR \<noteq> 0
      \<and> (\<forall>e \<in> set es. removable (snd e)))"

text \<open>
  The calls of a depth-first delete of the tree at \<open>path\<close>, in order, all of them
  succeeding: for a directory first everything below each of its entries in turn, then
  the directory itself; a file is unlinked. This follows the words of the specification,
  not the code.
\<close>

fun removal_order :: "string \<Rightarrow> node \<Rightarrow> (syscall \<times> bool) list" where
  "removal_order path (File m b) = [(Unlink path, True)]"
| "removal_order path (Dir m d es) =
     concat (map (\<lambda>e. removal_order (path @ ''/'' @ fst e) (snd e)) es) @ [(Rmdir path, True)]"

subsection \<open>How deep a path lies\<close>

text \<open>
  The number of pieces a path string resolves to, whatever the store holds: resolution
  either fails or ends at the pieces its text gives.
\<close>

definition resolved_depth :: "world \<Rightarrow> string \<Rightarrow> nat" where
  "resolved_depth w s =
     length (lexically_normal (if hd s = CHR ''/'' then [] else cwd w) (components s))"

subsection \<open>What the second search should return\<close>

text \<open>
  What the recursive iterator of \<^verbatim>\<open>file_explorer.cpp\<close> yields below a directory, in
  pre-order, each entry with its base name, its path and whether it is a directory. The
  names come from reading the directory, which needs read permission; going into a
  subdirectory needs search permission on the directory that holds it. Paths are joined
  as \<^verbatim>\<open>fs::path\<close> joins them. This follows the words of the specification, not the code.
\<close>

fun listed :: "string \<Rightarrow> node \<Rightarrow> (string \<times> string \<times> bool) list" where
  "listed path (File m b) = []"
| "listed path (Dir m d es) =
     (if m AND S_IRUSR \<noteq> 0
      then concat (map (\<lambda>e. (fst e, path_append path (fst e), is_dir (snd e))
                              # (if m AND S_IXUSR \<noteq> 0
                                 then listed (path_append path (fst e)) (snd e) else [])) es)
      else [])"

definition listed_below ::
  "string \<Rightarrow> bool \<Rightarrow> (string \<times> node) list \<Rightarrow> (string \<times> string \<times> bool) list" where
  "listed_below path x es =
     concat (map (\<lambda>e. (fst e, path_append path (fst e), is_dir (snd e))
                        # (if x then listed (path_append path (fst e)) (snd e) else [])) es)"

text \<open>The base name contains the term, letter for letter.\<close>

definition name_contains :: "string \<Rightarrow> string \<Rightarrow> bool" where
  "name_contains term n = (\<exists>pre post. n = pre @ term @ post)"

definition hits :: "string \<Rightarrow> (string \<times> string \<times> bool) list \<Rightarrow> string list" where
  "hits term xs = map (\<lambda>x. fst (snd x)) (filter (\<lambda>x. name_contains term (fst x)) xs)"

section \<open>Example stores\<close>

definition ex0 :: explorer where
  "ex0 = \<lparr>currentPath = ''/h'', fileList = [], recentFiles = [], maxRecentFiles = 10,
          currentTheme = ''default''\<rparr>"

definition fx0 :: explorer_fs where
  "fx0 = \<lparr>current = ''/h'', showHidden = False, sortBy = NAME, dirsFirst = True\<rparr>"

text \<open>
  \<^verbatim>\<open>/h\<close> holds the files \<^verbatim>\<open>a\<close> (0644) and \<^verbatim>\<open>b\<close> (0600) and the directory \<^verbatim>\<open>d\<close> with one
  file \<^verbatim>\<open>f\<close>; everything is on device 1, the umask is 022.
\<close>

definition w0 :: world where
  "w0 = \<lparr>root = Dir 493 1
                  [(''h'', Dir 493 1
                     [(''a'', File 420 ''x''), (''b'', File 384 ''y''),
                      (''d'', Dir 493 1 [(''f'', File 420 ''z'')])])],
         umask = 18, cwd = [''h''], passwd = [], groups = [], home = ''/h'', euid = 1000, egroups = [1000],
         trace = []\<rparr>"

text \<open>
  The tree of the specification's search example: \<^verbatim>\<open>/root/a/Report.txt\<close>,
  \<^verbatim>\<open>/root/b/monthly_report/\<close>, \<^verbatim>\<open>/root/c/readme.md\<close>.
\<close>

definition treeS :: node where
  "treeS = Dir 493 1
             [(''a'', Dir 493 1 [(''Report.txt'', File 420 ''r'')]),
              (''b'', Dir 493 1 [(''monthly_report'', Dir 493 1 [])]),
              (''c'', Dir 493 1 [(''readme.md'', File 420 ''m'')])]"

definition wS :: world where
  "wS = \<lparr>root = Dir 493 1 [(''root'', treeS)],
         umask = 18, cwd = [''root''], passwd = [], groups = [], home = ''/root'', euid = 1000, egroups = [1000],
         trace = []\<rparr>"

definition fxS :: explorer_fs where
  "fxS = \<lparr>current = ''/root'', showHidden = False, sortBy = NAME, dirsFirst = True\<rparr>"

text \<open>
  Two devices: \<^verbatim>\<open>/h\<close> on device 1 and the empty \<^verbatim>\<open>/m\<close> on device 2. In \<^verbatim>\<open>/h/d\<close> the file
  \<^verbatim>\<open>p\<close> has mode 0 (it cannot be read), \<^verbatim>\<open>q\<close> is an ordinary file.
\<close>

definition wX :: world where
  "wX = \<lparr>root = Dir 493 1
                  [(''h'', Dir 493 1
                     [(''a'', File 420 ''x''), (''b'', File 0 ''y''),
                      (''d'', Dir 493 1 [(''p'', File 0 ''secret''), (''q'', File 420 ''z'')])]),
                   (''m'', Dir 493 2 [])],
         umask = 18, cwd = [''h''], passwd = [], groups = [], home = ''/h'', euid = 1000, egroups = [1000],
         trace = []\<rparr>"

text \<open>\<^verbatim>\<open>/h/d\<close> has mode 0555: its entries \<^verbatim>\<open>p\<close> and \<^verbatim>\<open>q\<close> cannot be removed.\<close>

definition wD :: world where
  "wD = \<lparr>root = Dir 493 1
                  [(''h'', Dir 493 1
                     [(''d'', Dir 365 1 [(''p'', File 420 ''x''), (''q'', File 420 ''z'')])])],
         umask = 18, cwd = [''h''], passwd = [], groups = [], home = ''/h'', euid = 1000, egroups = [1000],
         trace = []\<rparr>"

text \<open>
  \<^verbatim>\<open>/r\<close> with three directories holding one report each; the middle one, \<^verbatim>\<open>locked\<close>, has
  mode 0 and cannot be opened.
\<close>

definition wU :: world where
  "wU = \<lparr>root = Dir 493 1
                  [(''r'', Dir 493 1
                     ([(''x'', Dir 493 1 [(''report1'', File 420 ''1'')])]
                      @ (''locked'', Dir 0 1 [(''report2'', File 420 ''2'')])
                      # [(''y'', Dir 493 1 [(''report3'', File 420 ''3'')])]))],
         umask = 18, cwd = [''r''], passwd = [], groups = [], home = ''/r'', euid = 1000, egroups = [1000],
         trace = []\<rparr>"

text \<open>The two-device store after \<^verbatim>\<open>mkdir /h/e\<close> with the mode of \<^verbatim>\<open>/h/d\<close>.\<close>

definition wX_e :: world where
  "wX_e = \<lparr>root = Dir 493 1
                  [(''h'', Dir 493 1
                     [(''a'', File 420 ''x''), (''b'', File 0 ''y''),
                      (''d'', Dir 493 1 [(''p'', File 0 ''secret''), (''q'', File 420 ''z'')]),
                      (''e'', Dir 493 1 [])]),
                   (''m'', Dir 493 2 [])],
         umask = 18, cwd = [''h''], passwd = [], groups = [], home = ''/h'', euid = 1000, egroups = [1000],
         trace = [(Mkdir ''/h/e'' 16877, True)]\<rparr>"


text \<open>The first store after \<^verbatim>\<open>/h/a\<close> has been renamed to \<^verbatim>\<open>/h/d/a\<close>.\<close>

definition w0_moved :: world where
  "w0_moved = \<lparr>root = Dir 493 1
                  [(''h'', Dir 493 1
                     [(''b'', File 384 ''y''),
                      (''d'', Dir 493 1 [(''f'', File 420 ''z''), (''a'', File 420 ''x'')])])],
         umask = 18, cwd = [''h''], passwd = [], groups = [], home = ''/h'', euid = 1000, egroups = [1000],
         trace = [(Rename ''/h/a'' ''/h/d/a'', True)]\<rparr>"

text \<open>The first store after \<^verbatim>\<open>/h/d\<close> has been deleted with its content.\<close>

definition w0_deleted :: world where
  "w0_deleted = \<lparr>root = Dir 493 1
                  [(''h'', Dir 493 1 [(''a'', File 420 ''x''), (''b'', File 384 ''y'')])],
         umask = 18, cwd = [''h''], passwd = [], groups = [], home = ''/h'', euid = 1000, egroups = [1000],
         trace = [(Unlink ''/h/d/f'', True), (Rmdir ''/h/d'', True)]\<rparr>"

text \<open>The store with the read-only \<^verbatim>\<open>/h/d\<close> after the unlink of \<^verbatim>\<open>p\<close> has failed.\<close>

definition wD_failed :: world where
  "wD_failed = \<lparr>root = Dir 493 1
                  [(''h'', Dir 493 1
                     [(''d'', Dir 365 1 [(''p'', File 420 ''x''), (''q'', File 420 ''z'')])])],
         umask = 18, cwd = [''h''], passwd = [], groups = [], home = ''/h'', euid = 1000, egroups = [1000],
         trace = [(Unlink ''/h/d/p'', False)]\<rparr>"

text \<open>
  A directory with a directory in it: \<^verbatim>\<open>/h/d\<close> holds \<^verbatim>\<open>s\<close>, which holds the file \<^verbatim>\<open>g\<close>, and
  the file \<^verbatim>\<open>f\<close>. \<^verbatim>\<open>/m\<close> is on another device.
\<close>

definition treeN :: node where
  "treeN = Dir 493 1 [(''s'', Dir 493 1 [(''g'', File 420 ''1'')]), (''f'', File 420 ''2'')]"

definition wM :: world where
  "wM = \<lparr>root = Dir 493 1 [(''h'', Dir 493 1 [(''d'', treeN)]), (''m'', Dir 493 2 [])],
         umask = 18, cwd = [''h''], passwd = [], groups = [], home = ''/h'', euid = 1000, egroups = [1000],
         trace = []\<rparr>"

text \<open>The same store after the recursive delete of \<^verbatim>\<open>/h/d\<close>.\<close>

definition wM_deleted :: world where
  "wM_deleted = \<lparr>root = Dir 493 1 [(''h'', Dir 493 1 []), (''m'', Dir 493 2 [])],
         umask = 18, cwd = [''h''], passwd = [], groups = [], home = ''/h'', euid = 1000, egroups = [1000],
         trace = [(Unlink ''/h/d/s/g'', True), (Rmdir ''/h/d/s'', True),
                  (Unlink ''/h/d/f'', True), (Rmdir ''/h/d'', True)]\<rparr>"




definition fxU :: explorer_fs where
  "fxU = \<lparr>current = ''/r'', showHidden = False, sortBy = NAME, dirsFirst = True\<rparr>"

section \<open>Facts about the model\<close>

subsection \<open>Path strings and their resolution\<close>

lemma split_slash_nonempty: "split_slash s \<noteq> []"
  by (induction s) (auto split: list.splits)

lemma split_slash_append: "split_slash (a @ CHR ''/'' # b) = split_slash a @ split_slash b"
  by (induction a) (auto split: list.splits simp: split_slash_nonempty)

lemma split_slash_plain: "CHR ''/'' \<notin> set n \<Longrightarrow> split_slash n = [n]"
  by (induction n) auto

lemma components_child:
  "n \<noteq> [] \<Longrightarrow> CHR ''/'' \<notin> set n \<Longrightarrow> components (p @ CHR ''/'' # n) = components p @ [n]"
  by (simp add: components_def split_slash_append split_slash_plain)

lemma lookup_append:
  "lookup r (p @ q) = (case lookup r p of None \<Rightarrow> None | Some x \<Rightarrow> lookup x q)"
proof (induction p arbitrary: r)
  case Nil
  then show ?case by simp
next
  case (Cons c p)
  then show ?case by (cases r) (auto split: option.splits)
qed

lemma walk_append:
  "walk r cur (cs @ ds) = (case walk r cur cs of None \<Rightarrow> None | Some p \<Rightarrow> walk r p ds)"
  by (induction cs arbitrary: cur) (auto split: option.splits node.splits)

lemma resolve_walk:
  assumes "resolve w s = Some p"
  shows "s \<noteq> []" and "walk (root w) (if hd s = CHR ''/'' then [] else cwd w) (components s) = Some p"
  using assms by (auto simp: resolve_def split: if_splits option.splits node.splits)

lemma resolve_no_slash:
  "s \<noteq> [] \<Longrightarrow> last s \<noteq> CHR ''/'' \<Longrightarrow>
   resolve w s = walk (root w) (if hd s = CHR ''/'' then [] else cwd w) (components s)"
  by (simp add: resolve_def split: option.splits)

lemma last_child:
  assumes "valid_name n"
  shows "last (path @ CHR ''/'' # n) \<noteq> CHR ''/''"
proof -
  from assms have n: "n \<noteq> []" "CHR ''/'' \<notin> set n" by (simp_all add: valid_name_def)
  from n(1) have "last n \<in> set n" by (rule last_in_set)
  with n(2) have "last n \<noteq> CHR ''/''" by auto
  with n(1) show ?thesis by simp
qed

lemma resolve_child:
  assumes "resolve w path = Some p" and "lookup (root w) p = Some (Dir m d es)"
    and "m AND S_IXUSR \<noteq> 0" and "valid_name n"
  shows "resolve w (path @ ''/'' @ n) = Some (p @ [n])"
proof -
  note ne = resolve_walk(1) [OF assms(1)] and w = resolve_walk(2) [OF assms(1)]
  from ne have hd: "hd (path @ CHR ''/'' # n) = hd path" by simp
  from assms(4) have c: "components (path @ CHR ''/'' # n) = components path @ [n]"
    by (simp add: components_child valid_name_def)
  from assms(4) have nd: "n \<noteq> ''.''" "n \<noteq> ''..''" by (auto simp: valid_name_def)
  have "resolve w (path @ CHR ''/'' # n)
      = walk (root w) (if hd path = CHR ''/'' then [] else cwd w) (components path @ [n])"
    using resolve_no_slash [of "path @ CHR ''/'' # n" w] last_child [OF assms(4), of path]
    by (simp only: hd c) simp
  also have "\<dots> = Some (p @ [n])"
    using w nd assms(2,3) by (simp add: walk_append)
  finally show ?thesis by simp
qed

lemma node_at_child:
  assumes "resolve w path = Some p" and "lookup (root w) p = Some (Dir m d es)"
    and "m AND S_IXUSR \<noteq> 0" and "valid_name n"
  shows "node_at w (path @ ''/'' @ n) = map_of es n"
  using resolve_child [OF assms] assms(2)
  by (simp add: node_at_def lookup_append split: option.splits)

lemma resolve_child_blocked:
  assumes "resolve w path = Some p" and "lookup (root w) p = Some (Dir m d es)"
    and "m AND S_IXUSR = 0" and "n \<noteq> []" "CHR ''/'' \<notin> set n"
  shows "resolve w (path @ ''/'' @ n) = None"
proof -
  note ne = resolve_walk(1) [OF assms(1)] and w = resolve_walk(2) [OF assms(1)]
  from ne have hd: "hd (path @ ''/'' @ n) = hd path" by simp
  from assms(4,5) have c: "components (path @ CHR ''/'' # n) = components path @ [n]"
    by (simp add: components_child)
  show ?thesis
    using ne w assms(2,3) by (simp add: resolve_def hd c walk_append)
qed

lemma stat_child:
  assumes "resolve w path = Some p" and "lookup (root w) p = Some (Dir m d es)"
    and "m AND S_IXUSR \<noteq> 0" and "valid_name n"
  shows "stat w (path @ CHR ''/'' # n) = map_option st_mode_of (map_of es n)"
  using node_at_child [OF assms] by (simp add: stat_def)

lemma stat_child_blocked:
  assumes "resolve w path = Some p" and "lookup (root w) p = Some (Dir m d es)"
    and "m AND S_IXUSR = 0" and "valid_name n"
  shows "stat w (path @ CHR ''/'' # n) = None"
  using resolve_child_blocked [OF assms(1-3), of n] assms(4)
  by (simp add: stat_def node_at_def valid_name_def)

lemma opendir_at:
  assumes "resolve w path = Some p" and "lookup (root w) p = Some n"
  shows "opendir w path =
     (case n of Dir m d es \<Rightarrow> if m AND S_IRUSR \<noteq> 0 then Some (''.'' # ''..'' # map fst es) else None
      | File m b \<Rightarrow> None)"
  using assms by (simp add: opendir_def node_at_def split: node.splits)

lemma S_ISDIR_st_mode: "S_ISDIR (st_mode_of n) = is_dir n"
  by (cases n) (simp_all add: S_ISDIR_def bit.conj_disj_distrib2 and.assoc)

lemma resolve_trace [simp]: "resolve (w\<lparr>trace := t\<rparr>) s = resolve w s"
  by (auto simp: resolve_def split: option.splits node.splits)

lemma node_at_trace [simp]: "node_at (w\<lparr>trace := t\<rparr>) s = node_at w s"
  by (simp add: node_at_def split: option.splits)

subsection \<open>Changes of the tree\<close>

lemma map_of_set_entry: "map_of (set_entry k v es) k' = (if k' = k then Some v else map_of es k')"
  by (induction es) auto

lemma map_of_alter_entry: "map_of (alter_entry k v es) k' = (if k' = k then v else map_of es k')"
proof (cases v)
  case None
  show ?thesis unfolding None by (induction es) auto
next
  case (Some n)
  then show ?thesis by (simp add: map_of_set_entry)
qed

lemma lookup_File: "lookup (File m b) q = (if q = [] then Some (File m b) else None)"
  by (cases q) auto

lemma dir_mode_File [simp]: "dir_mode (lookup (File m b) q) = None"
  by (simp add: lookup_File)

text \<open>Storing a file (or nothing) where no directory is leaves every directory as it was.\<close>

lemma dir_mode_alter:
  assumes "dir_mode (lookup r p) = None" and "dir_mode v = None"
  shows "dir_mode (lookup (alter p v r) q) = dir_mode (lookup r q)"
  using assms
proof (induction p arbitrary: r q)
  case Nil
  then obtain m b where r: "r = File m b" by (cases r) auto
  show ?case
  proof (cases v)
    case None
    then show ?thesis by simp
  next
    case (Some n)
    with Nil(2) obtain m' b' where "n = File m' b'" by (cases n) auto
    with Some r show ?thesis by simp
  qed
next
  case (Cons c cs)
  show ?case
  proof (cases r)
    case (File m b)
    then show ?thesis by simp
  next
    case (Dir m d es)
    show ?thesis
    proof (cases q)
      case Nil
      with Dir show ?thesis by (simp split: option.splits)
    next
      case q: (Cons c' qs)
      show ?thesis
      proof (cases "cs = []")
        case True
        show ?thesis
        proof (cases "c' = c")
          case False
          with Dir q True show ?thesis by (simp add: map_of_alter_entry)
        next
          case same: True
          from Cons.prems(1) Dir True have old: "dir_mode (map_of es c) = None"
            by (simp split: option.splits)
          have "\<And>x. dir_mode x = None \<Longrightarrow>
              dir_mode (case x of None \<Rightarrow> None | Some ch \<Rightarrow> lookup ch qs) = None"
          proof -
            fix x :: "node option" assume "dir_mode x = None"
            then show "dir_mode (case x of None \<Rightarrow> None | Some ch \<Rightarrow> lookup ch qs) = None"
              by (cases x rule: dir_mode.cases) simp_all
          qed
          from this [OF old] this [OF Cons.prems(2)] Dir q True same show ?thesis
            by (simp add: map_of_alter_entry)
        qed
      next
        case deeper: False
        show ?thesis
        proof (cases "map_of es c")
          case None
          with Dir deeper show ?thesis by simp
        next
          case (Some ch)
          from Cons.prems(1) Dir Some have "dir_mode (lookup ch cs) = None" by simp
          from Cons.IH [OF this Cons.prems(2)] Dir q deeper Some show ?thesis
            by (simp add: map_of_set_entry)
        qed
      qed
    qed
  qed
qed

lemma walk_dir_mode:
  "walk r cur (c # cs) =
     (case dir_mode (lookup r cur) of
        None \<Rightarrow> None
      | Some m \<Rightarrow>
          if m AND S_IXUSR = 0 then None
          else if c = ''.'' then walk r cur cs
          else if c = ''..'' then walk r (butlast cur) cs
          else walk r (cur @ [c]) cs)"
  by (cases "lookup r cur" rule: dir_mode.cases) simp_all

lemma walk_alter:
  assumes "dir_mode (lookup r p) = None" and "dir_mode v = None"
  shows "walk (alter p v r) cur cs = walk r cur cs"
proof (induction cs arbitrary: cur)
  case Nil
  then show ?case by simp
next
  case (Cons c cs)
  show ?case
    unfolding walk_dir_mode dir_mode_alter [OF assms] Cons ..
qed

lemma lookup_alter_same:
  assumes "lookup r p \<noteq> None \<or> (p \<noteq> [] \<and> dir_mode (lookup r (butlast p)) \<noteq> None)"
  shows "lookup (alter p (Some n) r) p = Some n"
  using assms
proof (induction p arbitrary: r)
  case Nil
  then show ?case by simp
next
  case (Cons c cs)
  show ?case
  proof (cases r)
    case (File m b)
    with Cons.prems show ?thesis by (auto simp: lookup_File split: if_splits)
  next
    case (Dir m d es)
    show ?thesis
    proof (cases "cs = []")
      case True
      with Dir show ?thesis by (simp add: map_of_set_entry)
    next
      case False
      then have bl: "butlast (c # cs) = c # butlast cs" by simp
      from Cons.prems Dir False obtain ch where ch: "map_of es c = Some ch"
        unfolding bl by (cases "map_of es c") auto
      from Cons.prems Dir False ch
      have "lookup ch cs \<noteq> None \<or> (cs \<noteq> [] \<and> dir_mode (lookup ch (butlast cs)) \<noteq> None)"
        unfolding bl by auto
      from Cons.IH [OF this] Dir False ch show ?thesis by (simp add: map_of_set_entry)
    qed
  qed
qed

lemma lookup_alter_other_file:
  assumes "lookup r q = Some (File m b)" and "q \<noteq> p" and "dir_mode (lookup r p) = None"
  shows "lookup (alter p v r) q = Some (File m b)"
  using assms
proof (induction p arbitrary: r q)
  case Nil
  then obtain m0 b0 where "r = File m0 b0" by (cases r) auto
  with Nil show ?case by (simp add: lookup_File split: if_splits)
next
  case (Cons c cs)
  show ?case
  proof (cases r)
    case (File m0 b0)
    with Cons.prems show ?thesis by simp
  next
    case (Dir m0 d0 es)
    with Cons.prems(1) obtain c' qs where q: "q = c' # qs" by (cases q) auto
    with Cons.prems(1) Dir obtain ch where ch: "map_of es c' = Some ch" "lookup ch qs = Some (File m b)"
      by (auto split: option.splits)
    show ?thesis
    proof (cases "c' = c")
      case False
      with Dir q ch show ?thesis
        by (simp add: map_of_alter_entry map_of_set_entry split: option.splits)
    next
      case same: True
      show ?thesis
      proof (cases "cs = []")
        case True
        with Cons.prems(2) q same have "qs \<noteq> []" by simp
        with ch(2) obtain m1 d1 es1 where "ch = Dir m1 d1 es1"
          by (cases ch) (auto simp: lookup_File)
        with Cons.prems(3) Dir True ch(1) same show ?thesis by simp
      next
        case False
        from Cons.prems(2) q same have ne: "qs \<noteq> cs" by simp
        from Cons.prems(3) Dir ch(1) same have "dir_mode (lookup ch cs) = None" by simp
        from Cons.IH [OF ch(2) ne this] Dir q same False ch(1) show ?thesis
          by (simp add: map_of_set_entry)
      qed
    qed
  qed
qed

lemma resolve_dir_mode:
  "resolve w s =
     (if s = [] then None
      else
        (case walk (root w) (if hd s = CHR ''/'' then [] else cwd w) (components s) of
           None \<Rightarrow> None
         | Some p \<Rightarrow>
             if last s = CHR ''/'' \<and> dir_mode (lookup (root w) p) = None then None else Some p))"
  by (auto simp: resolve_def split: option.splits node.splits)

lemma put_file:
  assumes p: "resolve w s = Some p"
    and nd: "dir_mode (lookup (root w) p) = None"
    and ex: "lookup (root w) p \<noteq> None \<or> (p \<noteq> [] \<and> dir_mode (lookup (root w) (butlast p)) \<noteq> None)"
    and r': "root w' = alter p (Some (File m' b')) (root w)" and c': "cwd w' = cwd w"
  shows "resolve w' x = resolve w x"
    and "node_at w' s = Some (File m' b')"
    and "node_at w x = Some (File m b) \<Longrightarrow> resolve w x \<noteq> Some p \<Longrightarrow> node_at w' x = Some (File m b)"
proof -
  have dv: "dir_mode (Some (File m' b')) = None" by simp
  show res: "resolve w' x = resolve w x" for x
    by (auto simp: resolve_dir_mode r' c' walk_alter [OF nd dv] dir_mode_alter [OF nd dv]
        split: option.splits)
  show "node_at w' s = Some (File m' b')"
    by (simp add: node_at_def res p r' lookup_alter_same [OF ex])
  assume a: "node_at w x = Some (File m b)" "resolve w x \<noteq> Some p"
  then obtain q where q: "resolve w x = Some q" "lookup (root w) q = Some (File m b)" "q \<noteq> p"
    by (auto simp: node_at_def split: option.splits)
  then show "node_at w' x = Some (File m b)"
    by (simp add: node_at_def res r' lookup_alter_other_file [OF q(2,3) nd])
qed

lemma openable_facts:
  assumes "openable w p"
  shows "dir_mode (lookup (root w) p) = None"
    and "lookup (root w) p \<noteq> None \<or> (p \<noteq> [] \<and> dir_mode (lookup (root w) (butlast p)) \<noteq> None)"
  using assms
  by (auto simp: openable_def parent_writable_def split: option.splits node.splits)

lemma open_trunc_ok:
  assumes "resolve w s = Some p" and "openable w p"
  shows "\<exists>w1 m0. open_trunc w s cm = (True, w1) \<and> root w1 = alter p (Some (File m0 [])) (root w)
           \<and> cwd w1 = cwd w \<and> trace w1 = trace w @ [(OpenWrite s, True)]"
  using assms
  by (auto simp: open_trunc_def openable_def done_with_def logged_def split: option.splits node.splits)

lemma write_bytes_at:
  assumes "resolve w s = Some p" and "lookup (root w) p = Some (File m0 b0)"
  shows "root (write_bytes w s data) = alter p (Some (File m0 (b0 @ data))) (root w)"
    and "cwd (write_bytes w s data) = cwd w"
  using assms by (simp_all add: write_bytes_def)

lemma chmod_at:
  assumes "resolve w s = Some p" and "lookup (root w) p = Some (File m0 b0)"
  shows "root (snd (chmod w s m)) = alter p (Some (File (m AND 4095) b0)) (root w)"
    and "cwd (snd (chmod w s m)) = cwd w"
  using assms by (simp_all add: chmod_def done_with_def logged_def)

lemma file_at:
  "node_at w s = Some (File m b) \<Longrightarrow> resolve w s = Some p \<Longrightarrow> lookup (root w) p = Some (File m b)"
  by (simp add: node_at_def)

subsection \<open>What each call adds to the trace\<close>

lemma rmdir_trace: "rmdir w s = (ok, w') \<Longrightarrow> trace w' = trace w @ [(Rmdir s, ok)]"
  unfolding rmdir_def failed_def done_with_def logged_def
  by (simp split: option.splits node.splits list.splits if_splits) auto

lemma unlink_trace: "unlink w s = (ok, w') \<Longrightarrow> trace w' = trace w @ [(Unlink s, ok)]"
  unfolding unlink_def failed_def done_with_def logged_def
  by (simp split: option.splits node.splits list.splits if_splits) auto

lemma mkdir_trace: "mkdir w s m = (ok, w') \<Longrightarrow> trace w' = trace w @ [(Mkdir s m, ok)]"
  unfolding mkdir_def failed_def done_with_def logged_def
  by (simp split: option.splits if_splits) auto

lemma open_trunc_trace: "open_trunc w s cm = (ok, w') \<Longrightarrow> trace w' = trace w @ [(OpenWrite s, ok)]"
  unfolding open_trunc_def failed_def done_with_def logged_def
  by (simp split: option.splits node.splits if_splits) auto

lemma chmod_trace: "chmod w s m = (ok, w') \<Longrightarrow> trace w' = trace w @ [(Chmod s m, ok)]"
  unfolding chmod_def failed_def done_with_def logged_def
  by (simp split: option.splits if_splits) auto

lemma rename_trace: "rename w a b = (ok, w') \<Longrightarrow> trace w' = trace w @ [(Rename a b, ok)]"
  unfolding rename_def failed_def done_with_def logged_def
  by (simp split: option.splits node.splits if_splits) auto

lemma write_bytes_trace [simp]: "trace (write_bytes w s b) = trace w"
  by (simp add: write_bytes_def split: option.splits node.splits)

lemma rmdir_nonempty:
  assumes "node_at w s = Some (Dir m d es)" and "es \<noteq> []"
  shows "rmdir w s = (False, w\<lparr>trace := trace w @ [(Rmdir s, False)]\<rparr>)"
  using assms
  by (cases es) (auto simp: rmdir_def node_at_def failed_def logged_def split: option.splits)

subsection \<open>Strings\<close>

lemma str_find_Some: "str_find h n = Some i \<Longrightarrow> \<exists>post. h = take i h @ n @ post \<and> i \<le> length h"
proof (induction h arbitrary: i)
  case Nil
  then show ?case by (auto split: if_splits)
next
  case (Cons a h)
  show ?case
  proof (cases "take (length n) (a # h) = n")
    case True
    with Cons.prems have "i = 0" by simp
    moreover from True have "a # h = n @ drop (length n) (a # h)"
      by (metis append_take_drop_id)
    ultimately show ?thesis by auto
  next
    case False
    with Cons.prems obtain j where j: "str_find h n = Some j" "i = Suc j" by auto
    from Cons.IH [OF j(1)] obtain post where "h = take j h @ n @ post" "j \<le> length h" by blast
    with j(2) show ?thesis by auto
  qed
qed

lemma str_find_None: "str_find h n = None \<Longrightarrow> h \<noteq> pre @ n @ post"
proof (induction h arbitrary: pre)
  case Nil
  then show ?case by (auto split: if_splits)
next
  case (Cons a h)
  from Cons.prems have ntake: "take (length n) (a # h) \<noteq> n" and rest: "str_find h n = None"
    by (auto split: if_splits)
  show ?case
  proof (cases pre)
    case Nil
    with ntake show ?thesis by auto
  next
    case (Cons b pre')
    with Cons.IH [OF rest, of pre'] show ?thesis by auto
  qed
qed

lemma str_find_iff: "str_find h n \<noteq> None \<longleftrightarrow> (\<exists>pre post. h = pre @ n @ post)"
proof
  assume "str_find h n \<noteq> None"
  then obtain i where "str_find h n = Some i" by auto
  from str_find_Some [OF this] show "\<exists>pre post. h = pre @ n @ post" by blast
next
  assume "\<exists>pre post. h = pre @ n @ post"
  then show "str_find h n \<noteq> None" using str_find_None by blast
qed

lemma name_matches_code: "name_matches term n \<longleftrightarrow> str_find (map tolower n) (map tolower term) \<noteq> None"
  by (simp only: name_matches_def str_find_iff)

lemma find_last_of_None: "find_last_of s c = None \<Longrightarrow> c \<notin> set s"
  by (induction s) (auto split: option.splits if_splits)

lemma find_last_of_Some: "find_last_of s c = Some i \<Longrightarrow> c \<in> set s"
  by (induction s arbitrary: i) (auto split: option.splits if_splits)

lemma after_last_slash:
  "(case find_last_of s c of Some i \<Rightarrow> drop (i + 1) s | None \<Rightarrow> s)
     = rev (takeWhile (\<lambda>x. x \<noteq> c) (rev s))"
proof (induction s)
  case Nil
  then show ?case by simp
next
  case (Cons x xs)
  show ?case
  proof (cases "find_last_of xs c")
    case None
    from find_last_of_None [OF this] have "\<And>y. y \<in> set (rev xs) \<Longrightarrow> y \<noteq> c" by auto
    then have tw: "takeWhile (\<lambda>x. x \<noteq> c) (rev xs @ [x]) = rev xs @ takeWhile (\<lambda>x. x \<noteq> c) [x]"
      by (rule takeWhile_append2)
    have l: "(case find_last_of (x # xs) c of Some i \<Rightarrow> drop (i + 1) (x # xs) | None \<Rightarrow> x # xs)
        = (if x = c then xs else x # xs)"
      using None by simp
    have r: "rev (takeWhile (\<lambda>x. x \<noteq> c) (rev (x # xs))) = (if x = c then xs else x # xs)"
      unfolding rev.simps tw by simp
    show ?thesis unfolding l r ..
  next
    case (Some i)
    from find_last_of_Some [OF this] obtain y where "y \<in> set (rev xs)" "\<not> y \<noteq> c" by auto
    then have tw: "takeWhile (\<lambda>x. x \<noteq> c) (rev xs @ [x]) = takeWhile (\<lambda>x. x \<noteq> c) (rev xs)"
      by (rule takeWhile_append1)
    have l: "(case find_last_of (x # xs) c of Some i \<Rightarrow> drop (i + 1) (x # xs) | None \<Rightarrow> x # xs)
        = drop (i + 1) xs"
      using Some by simp
    have r: "rev (takeWhile (\<lambda>x. x \<noteq> c) (rev (x # xs))) = drop (i + 1) xs"
      unfolding rev.simps tw using Cons Some by simp
    show ?thesis unfolding l r ..
  qed
qed

lemma sourceName_basename:
  "(case find_last_of source CHR ''/'' of Some lastSlash \<Rightarrow> drop (lastSlash + 1) source | None \<Rightarrow> source)
     = basename source"
  unfolding basename_def by (rule after_last_slash)

subsection \<open>The search walk\<close>

lemma height_child: "e \<in> set es \<Longrightarrow> height (snd e) < height (Dir m d es)"
  by (induction es) auto

text \<open>The loop over entries that cannot be inspected (the directory may not be searched).\<close>

lemma search_entries_blocked:
  assumes "resolve w path = Some p" and "lookup (root w) p = Some (Dir m d es)"
    and "m AND S_IXUSR = 0" and "\<forall>n \<in> set ns. valid_name n"
  shows "search_entries k w path term ns acc = Some acc"
  using assms(4)
proof (induction ns)
  case Nil
  then show ?case by simp
next
  case (Cons n ns)
  then have "valid_name n" by simp
  from stat_child_blocked [OF assms(1-3) this] Cons show ?case by simp
qed

lemma matching_append: "matching term (xs @ ys) = matching term xs @ matching term ys"
  by (simp add: matching_def)

lemma search_entries_correct:
  assumes IH: "\<And>path p dir acc. resolve w path = Some p \<Longrightarrow> lookup (root w) p = Some dir \<Longrightarrow>
            wf_node dir \<Longrightarrow> height dir < k \<Longrightarrow>
            searchRecursive k w path term acc = Some (acc @ matching term (subtree_entries path dir))"
    and res: "resolve w path = Some p" and dir: "lookup (root w) p = Some (Dir m d es)"
    and x: "m AND S_IXUSR \<noteq> 0" and wf: "wf_node (Dir m d es)" and h: "height (Dir m d es) \<le> k"
    and sub: "set es' \<subseteq> set es"
  shows "search_entries k w path term (map fst es') acc = Some (acc @ matching term (entries_below path es'))"
  using sub
proof (induction es' arbitrary: acc)
  case Nil
  then show ?case by (simp add: matching_def entries_below_def)
next
  case (Cons e es')
  obtain n ch where e: "e = (n, ch)" by (cases e)
  from Cons.prems e have mem: "(n, ch) \<in> set es" by simp
  with wf have vn: "valid_name n" and wfc: "wf_node ch" and dist: "distinct (map fst es)" by auto
  from dist mem have mo: "map_of es n = Some ch" by simp
  from vn have nd: "n \<noteq> ''.''" "n \<noteq> ''..''" by (auto simp: valid_name_def)
  have st: "stat w (path @ CHR ''/'' # n) = Some (st_mode_of ch)"
    using stat_child [OF res dir x vn] mo by simp
  from height_child [OF mem, of m d] h have hc: "height ch < k" by simp
  have rc: "resolve w (path @ CHR ''/'' # n) = Some (p @ [n])"
    using resolve_child [OF res dir x vn] by simp
  have lc: "lookup (root w) (p @ [n]) = Some ch"
    using dir mo by (simp add: lookup_append)
  from Cons.prems have sub': "set es' \<subseteq> set es" by simp
  define own where "own = (if name_matches term n
        then [if is_dir ch then path @ CHR ''/'' # n @ ''/'' else path @ CHR ''/'' # n] else [])"
  have own: "matching term [(n, path @ CHR ''/'' # n, is_dir ch)] = own"
    by (simp add: matching_def own_def shown_as_def)
  have unf: "entries_below path (e # es') =
      (n, path @ CHR ''/'' # n, is_dir ch) # subtree_entries (path @ CHR ''/'' # n) ch @ entries_below path es'"
    by (simp add: entries_below_def e)
  have step: "search_entries k w path term (map fst (e # es')) acc =
      (if is_dir ch
       then (case searchRecursive k w (path @ CHR ''/'' # n) term (acc @ own) of
               None \<Rightarrow> None
             | Some r \<Rightarrow> search_entries k w path term (map fst es') r)
       else search_entries k w path term (map fst es') (acc @ own))"
    using nd st by (simp add: e S_ISDIR_st_mode Let_def own_def name_matches_code)
  have parts: "matching term (entries_below path (e # es')) =
      own @ matching term (subtree_entries (path @ CHR ''/'' # n) ch) @ matching term (entries_below path es')"
    unfolding unf using own matching_append [of "term" "[(n, path @ CHR ''/'' # n, is_dir ch)]"]
    by (simp add: matching_append)
  show ?case
  proof (cases "is_dir ch")
    case True
    have "searchRecursive k w (path @ CHR ''/'' # n) term (acc @ own)
          = Some ((acc @ own) @ matching term (subtree_entries (path @ CHR ''/'' # n) ch))"
      by (rule IH [OF rc lc wfc hc])
    then show ?thesis
      using True Cons.IH [OF sub'] by (simp only: step parts) simp
  next
    case False
    then have "subtree_entries (path @ CHR ''/'' # n) ch = []" by (cases ch) auto
    then show ?thesis
      using False Cons.IH [OF sub'] by (simp only: step parts) (simp add: matching_def)
  qed
qed

lemma searchRecursive_correct:
  "resolve w path = Some p \<Longrightarrow> lookup (root w) p = Some dir \<Longrightarrow> wf_node dir \<Longrightarrow> height dir < k \<Longrightarrow>
   searchRecursive k w path term acc = Some (acc @ matching term (subtree_entries path dir))"
proof (induction k arbitrary: path p dir acc)
  case 0
  then show ?case by simp
next
  case (Suc k)
  note res = Suc.prems(1) and look = Suc.prems(2) and wf = Suc.prems(3) and h = Suc.prems(4)
  show ?case
  proof (cases dir)
    case (File m b)
    with opendir_at [OF res look] show ?thesis by (simp add: matching_def)
  next
    case (Dir m d es)
    note od = opendir_at [OF res look [unfolded Dir], simplified]
    show ?thesis
    proof (cases "m AND S_IRUSR = 0")
      case True
      with od Dir show ?thesis by (simp add: matching_def)
    next
      case r: False
      with od have names: "opendir w path = Some (''.'' # ''..'' # map fst es)" by simp
      show ?thesis
      proof (cases "m AND S_IXUSR = 0")
        case True
        from wf Dir have "\<forall>n \<in> set (map fst es). valid_name n" by auto
        from search_entries_blocked [OF res look [unfolded Dir] True this]
        show ?thesis using names True Dir by (simp add: matching_def)
      next
        case x: False
        from h Dir have h': "height (Dir m d es) \<le> k" by simp
        have "search_entries k w path term (map fst es) acc = Some (acc @ matching term (entries_below path es))"
          by (rule search_entries_correct [OF Suc.IH res look [unfolded Dir] x wf [unfolded Dir] h'])
             simp_all
        then show ?thesis using names r x Dir by (simp add: entries_below_def)
      qed
    qed
  qed
qed

subsection \<open>The delete walk\<close>

lemma strictly_below_child [simp]: "strictly_below dir (dir @ CHR ''/'' # n)"
  by (simp add: strictly_below_def)

lemma strictly_below_trans:
  "strictly_below (dir @ CHR ''/'' # n) s \<Longrightarrow> strictly_below dir s"
proof -
  assume "strictly_below (dir @ CHR ''/'' # n) s"
  then have "take (length dir + 1) (take (length (dir @ CHR ''/'' # n) + 1) s)
      = take (length dir + 1) ((dir @ CHR ''/'' # n) @ ''/'')"
    by (simp only: strictly_below_def)
  then show ?thesis by (simp add: strictly_below_def min_def)
qed

lemma removes_below_trans:
  "removes_below (dir @ CHR ''/'' # n) ev \<Longrightarrow> removes_below dir ev"
  by (auto simp: removes_below_def strictly_below_trans split: syscall.splits)

lemma not_strictly_below_self [simp]: "\<not> strictly_below dir dir"
  by (simp add: strictly_below_def)

lemma removes_below_removing: "removes_below dir ev \<Longrightarrow> removing ev"
  by (auto simp: removes_below_def removing_def split: syscall.splits)

lemma delete_run_Nil [simp]: "delete_run dir ok []"
  by (simp add: delete_run_def)

lemma delete_run_append:
  "delete_run dir True evs \<Longrightarrow> delete_run dir ok evs' \<Longrightarrow> delete_run dir ok (evs @ evs')"
  by (cases evs' rule: rev_cases) (auto simp: delete_run_def butlast_append)

lemma delete_run_removing: "delete_run dir ok evs \<Longrightarrow> list_all removing evs"
  by (auto simp: delete_run_def list_all_iff intro: removes_below_removing)

lemma delete_run_not_self:
  "delete_run dir ok evs \<Longrightarrow> (Rmdir dir, b) \<notin> set evs \<and> (Unlink dir, b) \<notin> set evs"
  by (auto simp: delete_run_def list_all_iff removes_below_def)

lemma delete_result_child:
  "delete_result (dir @ CHR ''/'' # n) ok evs \<Longrightarrow> delete_run dir ok evs"
proof -
  assume a: "delete_result (dir @ CHR ''/'' # n) ok evs"
  have own: "removes_below dir (Rmdir (dir @ CHR ''/'' # n), ok)"
    by (simp add: removes_below_def)
  from a show ?thesis
    unfolding delete_result_def delete_run_def list_all_iff
    using removes_below_trans [of dir n] own by (auto simp: butlast_append)
qed

lemma delete_run_single:
  "removes_below dir (c, ok) \<Longrightarrow> delete_run dir ok [(c, ok)]"
  by (simp add: delete_run_def)

lemma delete_traces:
  "deleteDirectoryRecursive fuel w path = Some (ok, w') \<Longrightarrow>
      \<exists>evs. trace w' = trace w @ evs \<and> delete_result path ok evs"
  "delete_entries fuel w path names = Some (ok, w') \<Longrightarrow>
      \<exists>evs. trace w' = trace w @ evs \<and> delete_run path ok evs"
proof (induction fuel w path and fuel w path names arbitrary: ok w' and ok w'
    rule: deleteDirectoryRecursive_delete_entries.induct)
  case (1 w path)
  then show ?case by simp
next
  case (2 k w path)
  show ?case
  proof (cases "opendir w path")
    case None
    with "2.prems" show ?thesis by (auto simp: delete_result_def)
  next
    case (Some names)
    with "2.prems" obtain success w1 where loop: "delete_entries k w path names = Some (success, w1)"
      by (auto split: option.splits)
    from "2.IH" [OF Some loop] obtain evs where evs: "trace w1 = trace w @ evs" "delete_run path success evs"
      by blast
    show ?thesis
    proof (cases success)
      case True
      with "2.prems" Some loop have r: "rmdir w1 path = (ok, w')" by simp
      from rmdir_trace [OF r] evs True show ?thesis
        by (auto simp: delete_result_def)
    next
      case False
      with "2.prems" Some loop have "ok = False" "w' = w1" by auto
      with evs False show ?thesis by (auto simp: delete_result_def)
    qed
  qed
next
  case (3 k w path)
  then show ?case by simp
next
  case (4 k w path filename rest)
  show ?case
  proof (cases "filename = ''.'' \<or> filename = ''..''")
    case True
    with "4.IH"(1) [OF True] "4.prems" show ?thesis by simp
  next
    case nd: False
    show ?thesis
    proof (cases "stat w (path @ ''/'' @ filename)")
      case None
      with "4.IH"(2) [OF nd None] "4.prems" nd show ?thesis by simp
    next
      case (Some fileStat)
      show ?thesis
      proof (cases "S_ISDIR fileStat")
        case True
        with "4.prems" nd Some obtain ok1 w1 where
          sub: "deleteDirectoryRecursive k w (path @ ''/'' @ filename) = Some (ok1, w1)"
          by (auto split: option.splits)
        from "4.IH"(3) [OF nd Some True sub] obtain evs1 where
          e1: "trace w1 = trace w @ evs1" "delete_result (path @ CHR ''/'' # filename) ok1 evs1"
          by auto
        from delete_result_child [OF e1(2)] have r1: "delete_run path ok1 evs1" .
        show ?thesis
        proof (cases ok1)
          case True
          with "4.prems" nd Some \<open>S_ISDIR fileStat\<close> sub
          have "delete_entries k w1 path rest = Some (ok, w')" by simp
          from "4.IH"(4) [OF nd Some \<open>S_ISDIR fileStat\<close> sub refl True this]
          obtain evs2 where e2: "trace w' = trace w1 @ evs2" "delete_run path ok evs2" by blast
          from r1 True e2(2) have "delete_run path ok (evs1 @ evs2)"
            by (intro delete_run_append) simp_all
          with e1(1) e2(1) show ?thesis by (intro exI [of _ "evs1 @ evs2"]) simp
        next
          case False
          with "4.prems" nd Some \<open>S_ISDIR fileStat\<close> sub have "ok = False" "w' = w1" by auto
          with e1(1) r1 False show ?thesis by auto
        qed
      next
        case nodir: False
        obtain ok1 w1 where u: "unlink w (path @ ''/'' @ filename) = (ok1, w1)"
          by (cases "unlink w (path @ ''/'' @ filename)")
        from unlink_trace [OF u] have t1: "trace w1 = trace w @ [(Unlink (path @ ''/'' @ filename), ok1)]" .
        have r1: "delete_run path ok1 [(Unlink (path @ ''/'' @ filename), ok1)]"
          by (rule delete_run_single) (simp add: removes_below_def)
        show ?thesis
        proof (cases ok1)
          case True
          with "4.prems" nd Some nodir u
          have "delete_entries k w1 path rest = Some (ok, w')" by simp
          from "4.IH"(5) [OF nd Some nodir u [symmetric] True this]
          obtain evs2 where e2: "trace w' = trace w1 @ evs2" "delete_run path ok evs2" by blast
          from r1 True e2(2)
          have "delete_run path ok ([(Unlink (path @ ''/'' @ filename), ok1)] @ evs2)"
            by (intro delete_run_append) simp_all
          with t1 e2(1) show ?thesis by (intro exI [of _ "[(Unlink (path @ ''/'' @ filename), ok1)] @ evs2"]) simp
        next
          case False
          with "4.prems" nd Some nodir u have "ok = False" "w' = w1" by auto
          with t1 r1 False show ?thesis by auto
        qed
      qed
    qed
  qed
qed

lemma delete_entries_append:
  "delete_entries k w p (xs @ ys) =
     (case delete_entries k w p xs of
        None \<Rightarrow> None
      | Some (ok, w1) \<Rightarrow> if ok then delete_entries k w1 p ys else Some (False, w1))"
proof (induction xs arbitrary: w)
  case Nil
  then show ?case by simp
next
  case (Cons x xs)
  show ?case
    by (simp add: Cons split: option.splits prod.splits)
qed

subsection \<open>The copy walk\<close>

lemma copyFileInternal_trace:
  assumes "copyFileInternal w s d = (ok, w')"
  shows "\<exists>evs. trace w' = trace w @ evs \<and> list_all creating evs"
proof (cases "ifstream_open w s")
  case False
  with assms show ?thesis by (simp add: copyFileInternal_def)
next
  case True
  obtain o1 w1 where op: "ofstream_open w d = (o1, w1)" by (cases "ofstream_open w d")
  then have t1: "trace w1 = trace w @ [(OpenWrite d, o1)]"
    by (simp add: ofstream_open_def open_trunc_trace)
  show ?thesis
  proof (cases o1)
    case False
    with assms True op t1 show ?thesis by (auto simp: copyFileInternal_def creating_def)
  next
    case o: True
    let ?w2 = "write_bytes w1 d (rdbuf w1 s)"
    show ?thesis
    proof (cases "stat ?w2 s")
      case None
      with assms True op o t1 show ?thesis by (auto simp: copyFileInternal_def Let_def creating_def)
    next
      case (Some m)
      obtain o3 w3 where ch: "chmod ?w2 d m = (o3, w3)" by (cases "chmod ?w2 d m")
      from chmod_trace [OF ch] t1 have "trace w3 = trace w @ [(OpenWrite d, o1), (Chmod d m, o3)]"
        by simp
      moreover from assms True op o Some ch have "w' = w3"
        by (auto simp: copyFileInternal_def Let_def)
      ultimately show ?thesis by (auto simp: creating_def)
    qed
  qed
qed

lemma copy_traces:
  "copyDirectoryRecursive fuel w s d = Some (ok, w') \<Longrightarrow>
      \<exists>evs. trace w' = trace w @ evs \<and> list_all creating evs"
  "copy_entries fuel w s d names = Some (ok, w') \<Longrightarrow>
      \<exists>evs. trace w' = trace w @ evs \<and> list_all creating evs"
proof (induction fuel w s d and fuel w s d names arbitrary: ok w' and ok w'
    rule: copyDirectoryRecursive_copy_entries.induct)
  case (1 w s d)
  then show ?case by simp
next
  case (2 k w s d)
  show ?case
  proof (cases "stat w s")
    case None
    with "2.prems" show ?thesis by auto
  next
    case (Some srcStat)
    obtain made w1 where mk: "mkdir w d srcStat = (made, w1)" by (cases "mkdir w d srcStat")
    from mkdir_trace [OF mk] have t1: "trace w1 = trace w @ [(Mkdir d srcStat, made)]" .
    have c1: "creating (Mkdir d srcStat, made)" by (simp add: creating_def)
    show ?thesis
    proof (cases "made \<and> opendir w1 s \<noteq> None")
      case False
      with "2.prems" Some mk have "w' = w1" by (auto split: option.splits if_splits)
      with t1 c1 show ?thesis by auto
    next
      case True
      then obtain names where od: "opendir w1 s = Some names" and made: made by auto
      with "2.prems" Some mk have "copy_entries k w1 s d names = Some (ok, w')" by simp
      from "2.IH" [OF Some mk [symmetric] _ od this] made
      obtain evs where "trace w' = trace w1 @ evs" "list_all creating evs" by auto
      with t1 c1 show ?thesis by auto
    qed
  qed
next
  case (3 k w s d)
  then show ?case by simp
next
  case (4 k w s d filename rest)
  show ?case
  proof (cases "filename = ''.'' \<or> filename = ''..''")
    case True
    with "4.IH"(1) [OF True] "4.prems" show ?thesis by simp
  next
    case nd: False
    show ?thesis
    proof (cases "stat w (s @ ''/'' @ filename)")
      case None
      with "4.IH"(2) [OF nd None] "4.prems" nd show ?thesis by simp
    next
      case (Some fileStat)
      show ?thesis
      proof (cases "S_ISDIR fileStat")
        case True
        with "4.prems" nd Some obtain ok1 w1 where
          sub: "copyDirectoryRecursive k w (s @ ''/'' @ filename) (d @ ''/'' @ filename) = Some (ok1, w1)"
          by (auto split: option.splits)
        from "4.IH"(3) [OF nd Some True sub] obtain evs1 where
          e1: "trace w1 = trace w @ evs1" "list_all creating evs1"
          by auto
        show ?thesis
        proof (cases ok1)
          case True
          with "4.prems" nd Some \<open>S_ISDIR fileStat\<close> sub
          have "copy_entries k w1 s d rest = Some (ok, w')" by simp
          from "4.IH"(4) [OF nd Some \<open>S_ISDIR fileStat\<close> sub refl True this]
          obtain evs2 where "trace w' = trace w1 @ evs2" "list_all creating evs2" by blast
          with e1 show ?thesis by auto
        next
          case False
          with "4.prems" nd Some \<open>S_ISDIR fileStat\<close> sub have "w' = w1" by auto
          with e1 show ?thesis by auto
        qed
      next
        case nodir: False
        obtain ok1 w1 where u: "copyFileInternal w (s @ ''/'' @ filename) (d @ ''/'' @ filename) = (ok1, w1)"
          by (cases "copyFileInternal w (s @ ''/'' @ filename) (d @ ''/'' @ filename)")
        from copyFileInternal_trace [OF u] obtain evs1 where
          e1: "trace w1 = trace w @ evs1" "list_all creating evs1" by blast
        show ?thesis
        proof (cases ok1)
          case True
          with "4.prems" nd Some nodir u
          have "copy_entries k w1 s d rest = Some (ok, w')" by simp
          from "4.IH"(5) [OF nd Some nodir u [symmetric] True this]
          obtain evs2 where "trace w' = trace w1 @ evs2" "list_all creating evs2" by blast
          with e1 show ?thesis by auto
        next
          case False
          with "4.prems" nd Some nodir u have "w' = w1" by auto
          with e1 show ?thesis by auto
        qed
      qed
    qed
  qed
qed

lemma copy_entries_append:
  "copy_entries k w s d (xs @ ys) =
     (case copy_entries k w s d xs of
        None \<Rightarrow> None
      | Some (ok, w1) \<Rightarrow> if ok then copy_entries k w1 s d ys else Some (False, w1))"
proof (induction xs arbitrary: w)
  case Nil
  then show ?case by simp
next
  case (Cons x xs)
  show ?case
    by (simp add: Cons split: option.splits prod.splits)
qed

lemma copyFileInternal_copies:
  assumes src: "node_at w srcPath = Some (File m b)" and rd: "m AND S_IRUSR \<noteq> 0"
    and ps: "resolve w srcPath \<noteq> Some pd"
    and dst: "resolve w destPath = Some pd" and op: "openable w pd"
  shows "\<exists>w'. copyFileInternal w srcPath destPath = (True, w')
           \<and> node_at w' destPath = Some (File (m AND 4095) b)
           \<and> node_at w' srcPath = Some (File m b)"
proof -
  from open_trunc_ok [OF dst op, of 438] obtain w1 m0 where
    o: "ofstream_open w destPath = (True, w1)"
    and r1: "root w1 = alter pd (Some (File m0 [])) (root w)" and c1: "cwd w1 = cwd w"
    by (auto simp: ofstream_open_def)
  note f = openable_facts [OF op]
  note p1 = put_file [OF dst f r1 c1]
  have d1: "node_at w1 destPath = Some (File m0 [])" by (rule p1(2))
  have s1: "node_at w1 srcPath = Some (File m b)" by (rule p1(3) [OF src ps])
  have dst1: "resolve w1 destPath = Some pd" by (simp add: p1(1) dst)
  have ps1: "resolve w1 srcPath \<noteq> Some pd" by (simp add: p1(1) ps)
  have rb: "rdbuf w1 srcPath = b" by (simp add: rdbuf_def s1)
  define w2 where "w2 = write_bytes w1 destPath b"
  have l1: "lookup (root w1) pd = Some (File m0 [])" by (rule file_at [OF d1 dst1])
  from write_bytes_at [OF dst1 l1, of b]
  have r2: "root w2 = alter pd (Some (File m0 b)) (root w1)" and c2: "cwd w2 = cwd w1"
    by (simp_all add: w2_def)
  have f1: "dir_mode (lookup (root w1) pd) = None" "lookup (root w1) pd \<noteq> None \<or> (pd \<noteq> [] \<and> dir_mode (lookup (root w1) (butlast pd)) \<noteq> None)"
    by (simp_all add: l1)
  note p2 = put_file [OF dst1 f1 r2 c2]
  have d2: "node_at w2 destPath = Some (File m0 b)" by (rule p2(2))
  have s2: "node_at w2 srcPath = Some (File m b)" by (rule p2(3) [OF s1 ps1])
  have dst2: "resolve w2 destPath = Some pd" by (simp add: p2(1) dst1)
  have ps2: "resolve w2 srcPath \<noteq> Some pd" by (simp add: p2(1) ps1)
  have st2: "stat w2 srcPath = Some (S_IFREG OR (m AND 4095))" by (simp add: stat_def s2)
  define w3 where "w3 = snd (chmod w2 destPath (S_IFREG OR (m AND 4095)))"
  have l2: "lookup (root w2) pd = Some (File m0 b)" by (rule file_at [OF d2 dst2])
  have msk: "(S_IFREG OR (m AND 4095)) AND 4095 = m AND 4095"
    by (simp add: bit.conj_disj_distrib2 and.assoc)
  from chmod_at [OF dst2 l2, of "S_IFREG OR (m AND 4095)"]
  have r3: "root w3 = alter pd (Some (File (m AND 4095) b)) (root w2)" and c3: "cwd w3 = cwd w2"
    by (simp_all add: w3_def msk)
  have f2: "dir_mode (lookup (root w2) pd) = None" "lookup (root w2) pd \<noteq> None \<or> (pd \<noteq> [] \<and> dir_mode (lookup (root w2) (butlast pd)) \<noteq> None)"
    by (simp_all add: l2)
  note p3 = put_file [OF dst2 f2 r3 c3]
  have d3: "node_at w3 destPath = Some (File (m AND 4095) b)" by (rule p3(2))
  have s3: "node_at w3 srcPath = Some (File m b)" by (rule p3(3) [OF s2 ps2])
  have io: "ifstream_open w srcPath" by (simp add: ifstream_open_def src rd)
  have "copyFileInternal w srcPath destPath = (True, w3)"
    unfolding copyFileInternal_def
    by (simp add: io o rb Let_def w2_def [symmetric] st2 w3_def)
  with d3 s3 show ?thesis by blast
qed

subsection \<open>The move\<close>

lemma move_protocol_fallback:
  "list_all creating cevs \<Longrightarrow> list_all removing devs \<Longrightarrow> fallback_ok src dst outcome devs \<Longrightarrow>
   move_protocol src [CrossFilesystemMoveDetected, outcome] ((Rename src dst, False) # cevs @ devs)"
  unfolding move_protocol_def
  apply (rule disjI2)
  apply (rule disjI2)
  apply (rule exI [of _ dst], rule exI [of _ cevs], rule exI [of _ devs], rule exI [of _ outcome])
  apply simp
  done

lemma move_protocol_renamed:
  "move_protocol src [if isd then DirectoryMovedTo dst else FileMovedTo dst] [(Rename src dst, True)]"
  unfolding move_protocol_def
  apply (rule disjI2)
  apply (rule disjI1)
  apply (rule exI [of _ dst])
  apply simp
  done

lemma move_after_rename:
  assumes rn: "rename w src dst = (renamed, w1)"
    and res: "(if renamed then
                 Some ([if isd then DirectoryMovedTo dst else FileMovedTo dst], e, w1)
               else if isd then
                 (case copyDirectoryRecursive fuel w1 src dst of
                    None \<Rightarrow> None
                  | Some (copied, w2) \<Rightarrow>
                      if copied then
                        (case deleteDirectoryRecursive fuel w2 src of
                           None \<Rightarrow> None
                         | Some (deleted, w3) \<Rightarrow>
                             Some ([CrossFilesystemMoveDetected,
                                    if deleted then DirectoryMovedTo dst
                                    else ErrCopiedButCouldNotDeleteSourceDirectory], e, w3))
                      else Some ([CrossFilesystemMoveDetected, ErrCannotMoveDirectory], e, w2))
               else
                 (case copyFileInternal w1 src dst of
                    (copied, w2) \<Rightarrow>
                      if copied then
                        (case unlink w2 src of
                           (deleted, w3) \<Rightarrow>
                             Some ([CrossFilesystemMoveDetected,
                                    if deleted then FileMovedTo dst
                                    else ErrCopiedButCouldNotDeleteSourceFile], e, w3))
                      else Some ([CrossFilesystemMoveDetected, ErrCannotMoveFile], e, w2)))
              = Some (msgs, e', w')"
  shows "e' = e \<and> (\<exists>evs. trace w' = trace w @ (Rename src dst, renamed) # evs
            \<and> move_protocol src msgs ((Rename src dst, renamed) # evs))"
proof -
  note t1 = rename_trace [OF rn]
  show ?thesis
  proof (cases renamed)
    case True
    with res have "msgs = [if isd then DirectoryMovedTo dst else FileMovedTo dst]" "e' = e" "w' = w1"
      by simp_all
    with t1 True move_protocol_renamed [of src isd dst] show ?thesis by simp
  next
    case nr: False
    show ?thesis
    proof (cases isd)
      case True
      with res nr obtain copied w2 where
        cp: "copyDirectoryRecursive fuel w1 src dst = Some (copied, w2)"
        by (auto split: option.splits)
      from copy_traces(1) [OF cp] obtain cevs where
        c: "trace w2 = trace w1 @ cevs" "list_all creating cevs" by blast
      show ?thesis
      proof (cases copied)
        case False
        with res nr True cp have "msgs = [CrossFilesystemMoveDetected, ErrCannotMoveDirectory]"
          "e' = e" "w' = w2" by auto
        moreover have "fallback_ok src dst ErrCannotMoveDirectory []" by (simp add: fallback_ok_def)
        from move_protocol_fallback [OF c(2) _ this] 
        have "move_protocol src [CrossFilesystemMoveDetected, ErrCannotMoveDirectory]
                ((Rename src dst, False) # cevs @ [])" by simp
        ultimately show ?thesis using t1 c(1) nr by simp
      next
        case cok: True
        with res nr True cp obtain deleted w3 where
          dl: "deleteDirectoryRecursive fuel w2 src = Some (deleted, w3)"
          by (auto split: option.splits)
        from delete_traces(1) [OF dl] obtain devs where
          d: "trace w3 = trace w2 @ devs" "delete_result src deleted devs" by blast
        from res nr True cp cok dl have m: "msgs = [CrossFilesystemMoveDetected,
            if deleted then DirectoryMovedTo dst else ErrCopiedButCouldNotDeleteSourceDirectory]"
          and "e' = e" "w' = w3" by auto
        have rm: "list_all removing devs"
          using d(2) delete_run_removing [of src]
          by (auto simp: delete_result_def removing_def)
        have fb: "fallback_ok src dst
            (if deleted then DirectoryMovedTo dst else ErrCopiedButCouldNotDeleteSourceDirectory) devs"
        proof (cases deleted)
          case True
          with d(2) show ?thesis by (auto simp: delete_result_def fallback_ok_def)
        next
          case False
          with d(2) delete_run_not_self [of src _ _ True] show ?thesis
            by (auto simp: delete_result_def fallback_ok_def)
        qed
        from t1 c d(1) \<open>w' = w3\<close> have "trace w' = trace w @ (Rename src dst, renamed) # cevs @ devs"
          by simp
        with move_protocol_fallback [OF c(2) rm fb] m nr \<open>e' = e\<close> show ?thesis
          by simp
      qed
    next
      case nd: False
      obtain copied w2 where cp: "copyFileInternal w1 src dst = (copied, w2)"
        by (cases "copyFileInternal w1 src dst")
      from copyFileInternal_trace [OF cp] obtain cevs where
        c: "trace w2 = trace w1 @ cevs" "list_all creating cevs" by blast
      show ?thesis
      proof (cases copied)
        case False
        with res nr nd cp have "msgs = [CrossFilesystemMoveDetected, ErrCannotMoveFile]"
          "e' = e" "w' = w2" by auto
        moreover have "fallback_ok src dst ErrCannotMoveFile []" by (simp add: fallback_ok_def)
        from move_protocol_fallback [OF c(2) _ this] 
        have "move_protocol src [CrossFilesystemMoveDetected, ErrCannotMoveFile]
                ((Rename src dst, False) # cevs @ [])" by simp
        ultimately show ?thesis using t1 c(1) nr by simp
      next
        case cok: True
        obtain deleted w3 where dl: "unlink w2 src = (deleted, w3)" by (cases "unlink w2 src")
        note d = unlink_trace [OF dl]
        from res nr nd cp cok dl have m: "msgs = [CrossFilesystemMoveDetected,
            if deleted then FileMovedTo dst else ErrCopiedButCouldNotDeleteSourceFile]"
          and "e' = e" "w' = w3" by auto
        have rm: "list_all removing [(Unlink src, deleted)]" by (simp add: removing_def)
        have fb: "fallback_ok src dst
            (if deleted then FileMovedTo dst else ErrCopiedButCouldNotDeleteSourceFile)
            [(Unlink src, deleted)]"
          by (simp add: fallback_ok_def)
        from t1 c d \<open>w' = w3\<close>
        have "trace w' = trace w @ (Rename src dst, renamed) # cevs @ [(Unlink src, deleted)]"
          by simp
        with move_protocol_fallback [OF c(2) rm fb] m nr \<open>e' = e\<close> show ?thesis
          by simp
      qed
    qed
  qed
qed

lemma moveFile_unfold:
  assumes "srcPath = currentPath e @ ''/'' @ source"
    and "stat w srcPath = Some srcStat"
    and "destPath = (if destination \<noteq> [] \<and> hd destination = CHR ''/'' then destination
                     else currentPath e @ ''/'' @ destination)"
  shows "moveFile fuel e w source destination =
     (case resolved_destination w source destPath of
        Inl err \<Rightarrow> Some ([err], e, w)
      | Inr dst \<Rightarrow>
          (case rename w srcPath dst of
             (renamed, w1) \<Rightarrow>
               if renamed then
                 Some ([if S_ISDIR srcStat then DirectoryMovedTo dst else FileMovedTo dst], e, w1)
               else if S_ISDIR srcStat then
                 (case copyDirectoryRecursive fuel w1 srcPath dst of
                    None \<Rightarrow> None
                  | Some (copied, w2) \<Rightarrow>
                      if copied then
                        (case deleteDirectoryRecursive fuel w2 srcPath of
                           None \<Rightarrow> None
                         | Some (deleted, w3) \<Rightarrow>
                             Some ([CrossFilesystemMoveDetected,
                                    if deleted then DirectoryMovedTo dst
                                    else ErrCopiedButCouldNotDeleteSourceDirectory], e, w3))
                      else Some ([CrossFilesystemMoveDetected, ErrCannotMoveDirectory], e, w2))
               else
                 (case copyFileInternal w1 srcPath dst of
                    (copied, w2) \<Rightarrow>
                      if copied then
                        (case unlink w2 srcPath of
                           (deleted, w3) \<Rightarrow>
                             Some ([CrossFilesystemMoveDetected,
                                    if deleted then FileMovedTo dst
                                    else ErrCopiedButCouldNotDeleteSourceFile], e, w3))
                      else Some ([CrossFilesystemMoveDetected, ErrCannotMoveFile], e, w2))))"
proof -
  have dp: "(if destination \<noteq> [] \<and> hd destination = CHR ''/'' then destination
             else currentPath e @ ''/'' @ destination) = destPath"
    using assms(3) by simp
  have sp: "currentPath e @ ''/'' @ source = srcPath" using assms(1) by simp
  show ?thesis
    unfolding moveFile_def Let_def sourceName_basename dp sp resolved_destination_def assms(2)
    by (simp only: option.case)
qed

subsection \<open>Removing entries\<close>

lemma set_entry_twice: "set_entry c x (set_entry c y es) = set_entry c x es"
  by (induction es) auto

lemma filter_set_entry:
  "filter (\<lambda>e. fst e \<noteq> c) (set_entry c x es) = filter (\<lambda>e. fst e \<noteq> c) es"
  by (induction es) auto

lemma set_entry_same: "map_of es c = Some x \<Longrightarrow> set_entry c x es = es"
  by (induction es) (auto split: if_splits)

lemma alter_same: "lookup r p = Some x \<Longrightarrow> alter p (Some x) r = r"
proof (induction p arbitrary: r)
  case Nil
  then show ?case by simp
next
  case (Cons c cs)
  show ?case
  proof (cases r)
    case (File m b)
    then show ?thesis by simp
  next
    case (Dir m d es)
    with Cons.prems obtain ch where ch: "map_of es c = Some ch" "lookup ch cs = Some x"
      by (auto split: option.splits)
    show ?thesis
    proof (cases "cs = []")
      case True
      with ch have "ch = x" by simp
      with ch True Dir show ?thesis by (simp add: set_entry_same)
    next
      case False
      with ch Dir Cons.IH [OF ch(2)] show ?thesis by (simp add: set_entry_same)
    qed
  qed
qed

lemma alter_absorb: "q \<noteq> [] \<Longrightarrow> alter p (Some x) (alter (p @ q) v r) = alter p (Some x) r"
proof (induction p arbitrary: r)
  case Nil
  then show ?case by simp
next
  case (Cons c cs)
  show ?case
  proof (cases r)
    case (File m b)
    then show ?thesis by simp
  next
    case (Dir m d es)
    show ?thesis
    proof (cases "map_of es c")
      case None
      with Dir Cons.prems show ?thesis by simp
    next
      case (Some ch)
      with Dir Cons.prems Cons.IH [OF Cons.prems, of ch] show ?thesis
        by (simp add: map_of_set_entry set_entry_twice)
    qed
  qed
qed

lemma alter_remove_put: "p \<noteq> [] \<Longrightarrow> alter p None (alter p (Some x) r) = alter p None r"
proof (induction p arbitrary: r)
  case Nil
  then show ?case by simp
next
  case (Cons c cs)
  show ?case
  proof (cases r)
    case (File m b)
    then show ?thesis by simp
  next
    case (Dir m d es)
    show ?thesis
    proof (cases "cs = []")
      case True
      with Dir show ?thesis by (simp add: filter_set_entry)
    next
      case False
      show ?thesis
      proof (cases "map_of es c")
        case None
        with Dir False show ?thesis by simp
      next
        case (Some ch)
        with Dir False Cons.IH [OF False, of ch] show ?thesis
          by (simp add: map_of_set_entry set_entry_twice)
      qed
    qed
  qed
qed

lemma lookup_child_removed:
  "lookup r p = Some (Dir m d es) \<Longrightarrow>
   lookup (alter (p @ [n]) None r) p = Some (Dir m d (filter (\<lambda>e. fst e \<noteq> n) es))"
proof (induction p arbitrary: r)
  case Nil
  then show ?case by simp
next
  case (Cons c cs)
  then obtain m0 d0 es0 ch where r: "r = Dir m0 d0 es0" "map_of es0 c = Some ch"
    "lookup ch cs = Some (Dir m d es)"
    by (cases r) (auto split: option.splits)
  with Cons.IH [OF r(3)] show ?case by (simp add: map_of_set_entry)
qed

lemma dir_mode_alter_above:
  "length cur < length q \<Longrightarrow> take (length cur) q = cur \<Longrightarrow>
   dir_mode (lookup (alter q v r) cur) = dir_mode (lookup r cur)"
proof (induction cur arbitrary: q r)
  case Nil
  then obtain c cs where q: "q = c # cs" by (cases q) auto
  show ?case by (cases r) (auto simp: q split: option.splits)
next
  case (Cons c cur)
  then obtain cs where q: "q = c # cs" "length cur < length cs" "take (length cur) cs = cur"
    by (cases q) auto
  then have ne: "cs \<noteq> []" by auto
  show ?case
  proof (cases r)
    case (File m b)
    then show ?thesis by (simp add: q)
  next
    case (Dir m d es)
    show ?thesis
    proof (cases "map_of es c")
      case None
      with Dir ne show ?thesis by (simp add: q)
    next
      case (Some ch)
      with Dir ne Cons.IH [OF q(2,3), of ch] show ?thesis
        by (simp add: q map_of_set_entry)
    qed
  qed
qed

lemma dir_mode_put_dir:
  "dir_mode (lookup r p) = Some m \<Longrightarrow> take (length cur) p = cur \<Longrightarrow>
   dir_mode (lookup (alter p (Some (Dir m d es)) r) cur) = dir_mode (lookup r cur)"
proof (cases "length cur < length p")
  case True
  assume "take (length cur) p = cur"
  with True show ?thesis by (rule dir_mode_alter_above)
next
  case False
  assume a: "dir_mode (lookup r p) = Some m" "take (length cur) p = cur"
  with False have "cur = p" by simp
  moreover from a(1) have "lookup r p \<noteq> None" by (cases "lookup r p") auto
  ultimately show ?thesis using a(1) by (simp add: lookup_alter_same)
qed

lemma walk_plain:
  "list_all valid_name cs \<Longrightarrow> walk r cur cs = Some p \<Longrightarrow> p = cur @ cs"
proof (induction cs arbitrary: cur)
  case Nil
  then show ?case by simp
next
  case (Cons c cs)
  from Cons.prems(1) have vc: "valid_name c" and rest: "list_all valid_name cs" by simp_all
  from vc have c: "c \<noteq> ''.''" "c \<noteq> ''..''" by (auto simp: valid_name_def)
  from Cons.prems(2) c have "walk r (cur @ [c]) cs = Some p"
    by (simp add: walk_dir_mode del: walk.simps split: option.splits if_splits)
  from Cons.IH [OF rest this] show ?case by simp
qed

lemma walk_alter_below:
  "list_all valid_name cs \<Longrightarrow> length (cur @ cs) \<le> length q \<Longrightarrow> take (length (cur @ cs)) q = cur @ cs \<Longrightarrow>
   (\<And>x. length x < length (cur @ cs) \<Longrightarrow> take (length x) q = x \<Longrightarrow>
        dir_mode (lookup r' x) = dir_mode (lookup r x)) \<Longrightarrow>
   walk r' cur cs = walk r cur cs"
proof (induction cs arbitrary: cur)
  case Nil
  then show ?case by simp
next
  case (Cons c cs)
  from Cons.prems(1) have vc: "valid_name c" and rest: "list_all valid_name cs" by simp_all
  from vc have c: "c \<noteq> ''.''" "c \<noteq> ''..''" by (auto simp: valid_name_def)
  from Cons.prems(3) have tk: "take (length cur) q = cur"
    by (metis append_eq_conv_conj take_take min.absorb1 length_append le_add1)
  have dm: "dir_mode (lookup r' cur) = dir_mode (lookup r cur)"
    by (rule Cons.prems(4)) (simp_all add: tk)
  have "walk r' (cur @ [c]) cs = walk r (cur @ [c]) cs"
    using Cons.prems(2,3,4) by (intro Cons.IH [OF rest]) simp_all
  then show ?case using c dm by (simp add: walk_dir_mode del: walk.simps split: option.splits)
qed

lemma plain_path_resolve:
  assumes "plain_path s"
  shows "resolve w s = walk (root w) [] (components s)"
  using assms resolve_no_slash [of s w] by (simp add: plain_path_def)

lemma plain_path_resolved:
  assumes "plain_path s" and "resolve w s = Some p"
  shows "p = components s"
  using assms walk_plain [of "components s" "root w" "[]" p]
  by (simp add: plain_path_resolve) (simp add: plain_path_def)

lemma plain_path_child:
  assumes "plain_path s" and "valid_name n"
  shows "plain_path (s @ CHR ''/'' # n)" and "components (s @ CHR ''/'' # n) = components s @ [n]"
proof -
  from assms(2) show c: "components (s @ CHR ''/'' # n) = components s @ [n]"
    by (simp add: components_child valid_name_def)
  from assms have "hd (s @ CHR ''/'' # n) = CHR ''/''" by (simp add: plain_path_def)
  with assms c last_child [OF assms(2), of s] show "plain_path (s @ CHR ''/'' # n)"
    by (simp add: plain_path_def)
qed

lemma plain_path_no_dot: "plain_path s \<Longrightarrow> \<not> ends_in_dot s"
  by (auto simp: plain_path_def ends_in_dot_def list_all_iff valid_name_def dest: last_in_set)

text \<open>A change at or below a plain path leaves its resolution as it was.\<close>

lemma resolve_kept:
  assumes "plain_path s" and "take (length (components s)) q = components s"
    and "length (components s) \<le> length q"
    and "\<And>x. length x < length (components s) \<Longrightarrow> take (length x) q = x \<Longrightarrow>
           dir_mode (lookup (root w') x) = dir_mode (lookup (root w) x)"
  shows "resolve w' s = resolve w s"
proof -
  from assms(1) have v: "list_all valid_name (components s)" by (simp add: plain_path_def)
  have "walk (root w') [] (components s) = walk (root w) [] (components s)"
    using assms(2,3,4) by (intro walk_alter_below [OF v, of "[]" q]) simp_all
  then show ?thesis by (simp add: plain_path_resolve [OF assms(1)])
qed

lemma parent_writable_dir_mode:
  "parent_writable r p =
     (p \<noteq> [] \<and> (case dir_mode (lookup r (butlast p)) of
                    Some m \<Rightarrow> m AND S_IWUSR \<noteq> 0 \<and> m AND S_IXUSR \<noteq> 0
                  | None \<Rightarrow> False))"
proof (cases "lookup r (butlast p)")
  case None
  then show ?thesis by (simp add: parent_writable_def)
next
  case (Some n)
  then show ?thesis by (cases n) (simp_all add: parent_writable_def)
qed

lemma unlink_at:
  assumes "resolve w s = Some p" and "lookup (root w) p = Some (File m b)"
    and "parent_writable (root w) p"
  shows "unlink w s = (True, w\<lparr>root := alter p None (root w), trace := trace w @ [(Unlink s, True)]\<rparr>)"
  using assms by (simp add: unlink_def done_with_def logged_def)

lemma rmdir_at:
  assumes "\<not> ends_in_dot s" and "resolve w s = Some p" and "lookup (root w) p = Some (Dir m d [])"
    and "parent_writable (root w) p"
  shows "rmdir w s = (True, w\<lparr>root := alter p None (root w), trace := trace w @ [(Rmdir s, True)]\<rparr>)"
  using assms by (simp add: rmdir_def done_with_def logged_def)

subsection \<open>The delete walk on a tree that can be removed\<close>

lemma height_fewer: "height (Dir m d es) \<le> height (Dir m d (e # es))"
  by simp

lemma delete_entries_removes:
  assumes IH: "\<And>w path dir. plain_path path \<Longrightarrow> resolve w path = Some (components path) \<Longrightarrow>
            lookup (root w) (components path) = Some dir \<Longrightarrow> is_dir dir \<Longrightarrow> wf_node dir \<Longrightarrow>
            removable dir \<Longrightarrow> parent_writable (root w) (components path) \<Longrightarrow> height dir \<le> k \<Longrightarrow>
            deleteDirectoryRecursive k w path
              = Some (True, w\<lparr>root := alter (components path) None (root w),
                              trace := trace w @ removal_order path dir\<rparr>)"
    and pl: "plain_path path" and wr: "m AND S_IWUSR \<noteq> 0" and x: "m AND S_IXUSR \<noteq> 0"
  shows "resolve w path = Some (components path) \<Longrightarrow>
         lookup (root w) (components path) = Some (Dir m d es) \<Longrightarrow>
         wf_node (Dir m d es) \<Longrightarrow> \<forall>e \<in> set es. removable (snd e) \<Longrightarrow> height (Dir m d es) \<le> Suc k \<Longrightarrow>
         delete_entries k w path (map fst es)
           = Some (True, w\<lparr>root := alter (components path) (Some (Dir m d [])) (root w),
                           trace := trace w
                             @ concat (map (\<lambda>e. removal_order (path @ ''/'' @ fst e) (snd e)) es)\<rparr>)"
proof (induction es arbitrary: w)
  case Nil
  from Nil.prems(2) have "alter (components path) (Some (Dir m d [])) (root w) = root w"
    by (rule alter_same)
  then show ?case by simp
next
  case (Cons e es)
  define p where "p = components path"
  obtain n ch where e: "e = (n, ch)" by (cases e)
  note res = Cons.prems(1) [folded p_def] and dir = Cons.prems(2) [folded p_def, unfolded e]
    and wf = Cons.prems(3) [unfolded e] and rm = Cons.prems(4) [unfolded e] and h = Cons.prems(5) [unfolded e]
  from wf have vn: "valid_name n" and wfc: "wf_node ch" and fresh: "n \<notin> fst ` set es"
    and wf': "wf_node (Dir m d es)" by auto
  from rm have rmc: "removable ch" and rm': "\<forall>e \<in> set es. removable (snd e)" by simp_all
  from vn have nd: "n \<noteq> ''.''" "n \<noteq> ''..''" by (auto simp: valid_name_def)
  define child where "child = path @ CHR ''/'' # n"
  have plc: "plain_path child" and cc: "components child = p @ [n]"
    unfolding child_def p_def by (rule plain_path_child [OF pl vn])+
  have st: "stat w child = Some (st_mode_of ch)"
    unfolding child_def using stat_child [OF res dir x vn] by simp
  have rc: "resolve w child = Some (p @ [n])"
    unfolding child_def using resolve_child [OF res dir x vn] by simp
  have lc: "lookup (root w) (p @ [n]) = Some ch"
    using dir by (simp add: lookup_append)
  have pw: "parent_writable (root w) (p @ [n])"
    using dir wr x by (simp add: parent_writable_def)
  from h have hc: "height ch \<le> k" by simp
  define w1 where "w1 = w\<lparr>root := alter (p @ [n]) None (root w),
                          trace := trace w @ removal_order child ch\<rparr>"
  have first: "(if is_dir ch then deleteDirectoryRecursive k w child else Some (unlink w child))
      = Some (True, w1)"
  proof (cases ch)
    case (File m' b')
    with unlink_at [OF rc _ pw, of m' b'] lc show ?thesis by (simp add: w1_def)
  next
    case (Dir m' d' es')
    then have "is_dir ch" by simp
    from IH [OF plc rc [folded cc] lc [folded cc] this wfc rmc pw [folded cc] hc] this
    show ?thesis by (simp add: w1_def cc)
  qed
  have r1: "root w1 = alter (p @ [n]) None (root w)" and t1: "trace w1 = trace w @ removal_order child ch"
    by (simp_all add: w1_def)
  have res1: "resolve w1 path = Some p"
  proof -
    have "resolve w1 path = resolve w path"
    proof (rule resolve_kept [OF pl, of "p @ [n]"])
      show "take (length (components path)) (p @ [n]) = components path" by (simp add: p_def)
      show "length (components path) \<le> length (p @ [n])" by (simp add: p_def)
      fix y assume "length y < length (components path)" "take (length y) (p @ [n]) = y"
      then show "dir_mode (lookup (root w1) y) = dir_mode (lookup (root w) y)"
        unfolding r1 by (intro dir_mode_alter_above) (simp_all add: p_def)
    qed
    with res show ?thesis by simp
  qed
  from fresh have "filter (\<lambda>e. fst e \<noteq> n) es = es" by (auto simp: filter_id_conv)
  then have lk1: "lookup (root w1) p = Some (Dir m d es)"
    unfolding r1 using lookup_child_removed [OF dir, of n] by simp
  from h have h': "height (Dir m d es) \<le> Suc k" by simp
  have rest: "delete_entries k w1 path (map fst es)
      = Some (True, w1\<lparr>root := alter p (Some (Dir m d [])) (root w1),
                       trace := trace w1
                         @ concat (map (\<lambda>e. removal_order (path @ ''/'' @ fst e) (snd e)) es)\<rparr>)"
    using Cons.IH [OF res1 [unfolded p_def] lk1 [unfolded p_def] wf' rm' h'] by (simp add: p_def)
  have ab: "alter p (Some (Dir m d [])) (root w1) = alter p (Some (Dir m d [])) (root w)"
    unfolding r1 by (rule alter_absorb) simp
  have step: "delete_entries k w path (map fst (e # es))
      = (case (if is_dir ch then deleteDirectoryRecursive k w child else Some (unlink w child)) of
           None \<Rightarrow> None
         | Some (ok, w') \<Rightarrow> if ok then delete_entries k w' path (map fst es) else Some (False, w'))"
    using nd st by (simp add: e child_def S_ISDIR_st_mode split: prod.splits)
  show ?case
    unfolding step first
    by (simp add: rest ab t1 p_def [symmetric] e child_def) (simp add: w1_def)
qed

lemma delete_removes:
  "plain_path path \<Longrightarrow> resolve w path = Some (components path) \<Longrightarrow>
   lookup (root w) (components path) = Some dir \<Longrightarrow> is_dir dir \<Longrightarrow> wf_node dir \<Longrightarrow>
   removable dir \<Longrightarrow> parent_writable (root w) (components path) \<Longrightarrow> height dir \<le> k \<Longrightarrow>
   deleteDirectoryRecursive k w path
     = Some (True, w\<lparr>root := alter (components path) None (root w),
                     trace := trace w @ removal_order path dir\<rparr>)"
proof (induction k arbitrary: w path dir)
  case 0
  then show ?case by (cases dir) simp_all
next
  case (Suc k)
  define p where "p = components path"
  from Suc.prems(4) obtain m d es where d: "dir = Dir m d es" by (cases dir) auto
  note pl = Suc.prems(1) and res = Suc.prems(2) [folded p_def]
    and dir = Suc.prems(3) [folded p_def, unfolded d] and wf = Suc.prems(5) [unfolded d]
    and rm = Suc.prems(6) [unfolded d] and pw = Suc.prems(7) [folded p_def]
    and h = Suc.prems(8) [unfolded d]
  from rm have r: "m AND S_IRUSR \<noteq> 0" and wr: "m AND S_IWUSR \<noteq> 0" and x: "m AND S_IXUSR \<noteq> 0"
    and rm': "\<forall>e \<in> set es. removable (snd e)" by simp_all
  have od: "opendir w path = Some (''.'' # ''..'' # map fst es)"
    using opendir_at [OF res dir] r by simp
  define w1 where "w1 = w\<lparr>root := alter p (Some (Dir m d [])) (root w),
       trace := trace w @ concat (map (\<lambda>e. removal_order (path @ ''/'' @ fst e) (snd e)) es)\<rparr>"
  have loop: "delete_entries k w path (map fst es) = Some (True, w1)"
    unfolding w1_def p_def
    by (rule delete_entries_removes [OF Suc.IH pl wr x Suc.prems(2) Suc.prems(3) [unfolded d] wf rm' h])
  have r1: "root w1 = alter p (Some (Dir m d [])) (root w)" by (simp add: w1_def)
  have above: "dir_mode (lookup (root w1) y) = dir_mode (lookup (root w) y)"
    if "length y < length p" "take (length y) p = y" for y
    unfolding r1 using that by (rule dir_mode_alter_above)
  have res1: "resolve w1 path = Some p"
  proof -
    have "resolve w1 path = resolve w path"
      by (rule resolve_kept [OF pl, of p]) (simp_all add: p_def [symmetric] above)
    with res show ?thesis by simp
  qed
  have lk1: "lookup (root w1) p = Some (Dir m d [])"
    unfolding r1 using dir by (simp add: lookup_alter_same)
  from pw have ne: "p \<noteq> []" by (simp add: parent_writable_def)
  then have "dir_mode (lookup (root w1) (butlast p)) = dir_mode (lookup (root w) (butlast p))"
    by (intro above) (simp_all add: butlast_conv_take)
  with pw have pw1: "parent_writable (root w1) p" by (simp add: parent_writable_dir_mode)
  have rd: "rmdir w1 path
      = (True, w1\<lparr>root := alter p None (root w1), trace := trace w1 @ [(Rmdir path, True)]\<rparr>)"
    by (rule rmdir_at [OF plain_path_no_dot [OF pl] res1 lk1 pw1])
  have fin: "alter p None (root w1) = alter p None (root w)"
    unfolding r1 by (rule alter_remove_put [OF ne])
  show ?case
    using od loop rd
    by (simp add: fin d p_def [symmetric]) (simp add: w1_def)
qed

subsection \<open>Well-formed stores\<close>

lemma walk_normal: "walk r cur cs = Some p \<Longrightarrow> p = lexically_normal cur cs"
proof (induction cs arbitrary: cur)
  case Nil
  then show ?case by (simp add: lexically_normal_def)
next
  case (Cons c cs)
  from Cons.prems have "walk r (if c = ''.'' then cur else if c = ''..'' then butlast cur else cur @ [c]) cs
      = Some p"
    by (simp add: walk_dir_mode del: walk.simps split: option.splits if_splits)
  from Cons.IH [OF this] show ?case by (simp add: lexically_normal_def)
qed

lemma resolve_depth: "resolve w s = Some p \<Longrightarrow> length p = resolved_depth w s"
  using walk_normal [OF resolve_walk(2)] by (simp add: resolved_depth_def)

lemma depth_child:
  assumes "s \<noteq> []" and "valid_name n"
  shows "resolved_depth w (s @ CHR ''/'' # n) = Suc (resolved_depth w s)"
proof -
  from assms(2) have c: "components (s @ CHR ''/'' # n) = components s @ [n]"
    by (simp add: components_child valid_name_def)
  from assms(2) have nd: "n \<noteq> ''.''" "n \<noteq> ''..''" by (auto simp: valid_name_def)
  from assms(1) have "hd (s @ CHR ''/'' # n) = hd s" by simp
  with c nd show ?thesis by (simp add: resolved_depth_def lexically_normal_def)
qed

lemma resolved_depth_trace [simp]: "resolved_depth (w\<lparr>trace := t\<rparr>) s = resolved_depth w s"
  by (simp add: resolved_depth_def)

lemma wf_lookup: "wf_node r \<Longrightarrow> lookup r p = Some n \<Longrightarrow> wf_node n"
proof (induction p arbitrary: r)
  case Nil
  then show ?case by simp
next
  case (Cons c cs)
  then obtain m d es ch where r: "r = Dir m d es" "map_of es c = Some ch" "lookup ch cs = Some n"
    by (cases r) (auto split: option.splits)
  from r(2) have "(c, ch) \<in> set es" by (rule map_of_SomeD)
  with Cons.prems(1) r(1) have "wf_node ch" by auto
  from Cons.IH [OF this r(3)] show ?case .
qed

lemma height_lookup: "lookup r p = Some (Dir m d es) \<Longrightarrow> length p < height r"
proof (induction p arbitrary: r)
  case Nil
  then show ?case by simp
next
  case (Cons c cs)
  then obtain m0 d0 es0 ch where r: "r = Dir m0 d0 es0" "map_of es0 c = Some ch"
    "lookup ch cs = Some (Dir m d es)"
    by (cases r) (auto split: option.splits)
  from r(2) have "(c, ch) \<in> set es0" by (rule map_of_SomeD)
  from height_child [OF this, of m0 d0] Cons.IH [OF r(3)] r(1) show ?case by simp
qed

lemma foldr_max_less:
  "(\<And>e. e \<in> set es \<Longrightarrow> height (snd e) < b) \<Longrightarrow> 0 < b \<Longrightarrow>
   foldr (\<lambda>e h. max (height (snd e)) h) es 0 < b"
  by (induction es) simp_all

lemma height_bound: "(\<And>e. e \<in> set es \<Longrightarrow> height (snd e) < b) \<Longrightarrow> 0 < b \<Longrightarrow> height (Dir m d es) \<le> b"
  using foldr_max_less [of es b] by (simp add: Suc_le_eq)

lemma set_set_entry: "set (set_entry c v es) \<subseteq> insert (c, v) (set es)"
  by (induction es) auto

lemma keys_set_entry:
  "map fst (set_entry c v es) = (if c \<in> fst ` set es then map fst es else map fst es @ [c])"
  by (induction es) auto

lemma wf_alter_None: "wf_node r \<Longrightarrow> wf_node (alter p None r)"
proof (induction p arbitrary: r)
  case Nil
  then show ?case by simp
next
  case (Cons c cs)
  show ?case
  proof (cases r)
    case (File m b)
    then show ?thesis by simp
  next
    case (Dir m d es)
    show ?thesis
    proof (cases "cs = []")
      case True
      with Dir Cons.prems show ?thesis by (auto simp: distinct_map_filter)
    next
      case False
      show ?thesis
      proof (cases "map_of es c")
        case None
        with Dir False Cons.prems show ?thesis by simp
      next
        case (Some ch)
        then have mem: "(c, ch) \<in> set es" by (rule map_of_SomeD)
        with Dir Cons.prems have "wf_node ch" by auto
        from Cons.IH [OF this] have wfc: "wf_node (alter cs None ch)" .
        from mem have k: "map fst (set_entry c (alter cs None ch) es) = map fst es"
          by (force simp: keys_set_entry)
        from mem Dir Cons.prems have vc: "valid_name c" by auto
        have "\<forall>e \<in> set (set_entry c (alter cs None ch) es). valid_name (fst e) \<and> wf_node (snd e)"
        proof
          fix e assume "e \<in> set (set_entry c (alter cs None ch) es)"
          with set_set_entry [of c "alter cs None ch" es]
          have "e = (c, alter cs None ch) \<or> e \<in> set es" by auto
          with vc wfc Dir Cons.prems show "valid_name (fst e) \<and> wf_node (snd e)" by auto
        qed
        with Dir False Some Cons.prems k show ?thesis by simp
      qed
    qed
  qed
qed

lemma height_alter_None: "height (alter p None r) \<le> height r"
proof (induction p arbitrary: r)
  case Nil
  then show ?case by simp
next
  case (Cons c cs)
  show ?case
  proof (cases r)
    case (File m b)
    then show ?thesis by simp
  next
    case (Dir m d es)
    have below: "height (Dir m d es') \<le> height (Dir m d es)"
      if "\<And>e. e \<in> set es' \<Longrightarrow> \<exists>e' \<in> set es. height (snd e) \<le> height (snd e')" for es'
    proof (rule height_bound)
      fix e assume "e \<in> set es'"
      from that [OF this] obtain e' where "e' \<in> set es" "height (snd e) \<le> height (snd e')" by blast
      with height_child [of e' es m d] show "height (snd e) < height (Dir m d es)" by simp
    qed simp
    show ?thesis
    proof (cases "cs = []")
      case True
      have "height (Dir m d (filter (\<lambda>e. fst e \<noteq> c) es)) \<le> height (Dir m d es)"
        by (rule below) auto
      with Dir True show ?thesis by (simp del: height.simps)
    next
      case False
      show ?thesis
      proof (cases "map_of es c")
        case None
        with Dir False show ?thesis by simp
      next
        case (Some ch)
        then have mem: "(c, ch) \<in> set es" by (rule map_of_SomeD)
        have "\<exists>e' \<in> set es. height (snd e) \<le> height (snd e')"
          if "e \<in> set (set_entry c (alter cs None ch) es)" for e
        proof (cases "e = (c, alter cs None ch)")
          case True
          with Cons.IH [of ch] mem show ?thesis by force
        next
          case False
          with that set_set_entry [of c "alter cs None ch" es] have "e \<in> set es" by auto
          then show ?thesis by blast
        qed
        from below [OF this] Dir False Some show ?thesis by (simp del: height.simps)
      qed
    qed
  qed
qed

lemma unlink_keeps:
  assumes "unlink w s = (ok, w')" and "wf_node (root w)" and "height (root w) \<le> H"
  shows "wf_node (root w') \<and> height (root w') \<le> H \<and> cwd w' = cwd w"
proof -
  from assms(1) have "cwd w' = cwd w \<and> (root w' = root w \<or> (\<exists>p. root w' = alter p None (root w)))"
    by (auto simp: unlink_def failed_def done_with_def logged_def
        split: option.splits node.splits if_splits)
  with assms(2,3) wf_alter_None [OF assms(2)] height_alter_None [of _ "root w"] show ?thesis
    by (metis le_trans)
qed

lemma rmdir_keeps:
  assumes "rmdir w s = (ok, w')" and "wf_node (root w)" and "height (root w) \<le> H"
  shows "wf_node (root w') \<and> height (root w') \<le> H \<and> cwd w' = cwd w"
proof -
  from assms(1) have "cwd w' = cwd w \<and> (root w' = root w \<or> (\<exists>p. root w' = alter p None (root w)))"
    by (auto simp: rmdir_def failed_def done_with_def logged_def
        split: option.splits node.splits list.splits if_splits)
  with assms(2,3) wf_alter_None [OF assms(2)] height_alter_None [of _ "root w"] show ?thesis
    by (metis le_trans)
qed

subsection \<open>The delete walk returns\<close>

lemma stat_dir_depth:
  assumes "stat w s = Some st" and "S_ISDIR st"
  shows "Suc (resolved_depth w s) \<le> height (root w)"
proof -
  from assms(1) obtain n where n: "node_at w s = Some n" "st = st_mode_of n"
    by (auto simp: stat_def)
  with assms(2) have "is_dir n" by (simp add: S_ISDIR_st_mode)
  then obtain m d es where "n = Dir m d es" by (cases n) auto
  with n(1) obtain p where p: "resolve w s = Some p" "lookup (root w) p = Some (Dir m d es)"
    by (auto simp: node_at_def split: option.splits)
  from height_lookup [OF p(2)] resolve_depth [OF p(1)] show ?thesis by simp
qed

lemma delete_entries_total:
  assumes IH: "\<And>w path. wf_node (root w) \<Longrightarrow> height (root w) \<le> H \<Longrightarrow> 0 < k \<Longrightarrow>
            H < k + resolved_depth w path \<Longrightarrow>
            \<exists>ok w'. deleteDirectoryRecursive k w path = Some (ok, w')
              \<and> wf_node (root w') \<and> height (root w') \<le> H \<and> cwd w' = cwd w"
    and ne: "path \<noteq> []"
  shows "wf_node (root w) \<Longrightarrow> height (root w) \<le> H \<Longrightarrow> H < Suc k + resolved_depth w path \<Longrightarrow>
         \<forall>n \<in> set names. n = ''.'' \<or> n = ''..'' \<or> valid_name n \<Longrightarrow>
         \<exists>ok w'. delete_entries k w path names = Some (ok, w')
           \<and> wf_node (root w') \<and> height (root w') \<le> H \<and> cwd w' = cwd w"
proof (induction names arbitrary: w)
  case Nil
  then show ?case by auto
next
  case (Cons n names)
  from Cons.prems(4) have rest: "\<forall>n \<in> set names. n = ''.'' \<or> n = ''..'' \<or> valid_name n" by simp
  have same: "resolved_depth w1 path = resolved_depth w path" if "cwd w1 = cwd w" for w1
    using that by (simp add: resolved_depth_def)
  have go: "\<exists>ok w'. delete_entries k w1 path names = Some (ok, w')
           \<and> wf_node (root w') \<and> height (root w') \<le> H \<and> cwd w' = cwd w"
    if "wf_node (root w1)" "height (root w1) \<le> H" "cwd w1 = cwd w" for w1
    using Cons.IH [OF that(1,2) _ rest] Cons.prems(3) same [OF that(3)] that(3) by simp
  show ?case
  proof (cases "n = ''.'' \<or> n = ''..''")
    case True
    with go [OF Cons.prems(1,2) refl] show ?thesis by auto
  next
    case nd: False
    with Cons.prems(4) have vn: "valid_name n" by simp
    show ?thesis
    proof (cases "stat w (path @ ''/'' @ n)")
      case None
      with nd go [OF Cons.prems(1,2) refl] show ?thesis by auto
    next
      case (Some st)
      show ?thesis
      proof (cases "S_ISDIR st")
        case True
        from stat_dir_depth [of w "path @ CHR ''/'' # n" st] Some True depth_child [OF ne vn, of w]
        have deep: "Suc (Suc (resolved_depth w path)) \<le> height (root w)" by simp
        with Cons.prems(2,3) have k: "0 < k" by simp
        from Cons.prems(3) depth_child [OF ne vn, of w]
        have "H < k + resolved_depth w (path @ CHR ''/'' # n)" by simp
        from IH [OF Cons.prems(1,2) k this] obtain ok1 w1 where
          sub: "deleteDirectoryRecursive k w (path @ CHR ''/'' # n) = Some (ok1, w1)"
          and inv: "wf_node (root w1)" "height (root w1) \<le> H" "cwd w1 = cwd w"
          by blast
        from go [OF inv] obtain ok2 w2 where
          "delete_entries k w1 path names = Some (ok2, w2)"
          "wf_node (root w2)" "height (root w2) \<le> H" "cwd w2 = cwd w" by blast
        with nd Some True sub inv show ?thesis by (cases ok1) auto
      next
        case False
        obtain ok1 w1 where u: "unlink w (path @ CHR ''/'' # n) = (ok1, w1)"
          by (cases "unlink w (path @ CHR ''/'' # n)")
        from unlink_keeps [OF u Cons.prems(1,2)]
        have inv: "wf_node (root w1)" "height (root w1) \<le> H" "cwd w1 = cwd w" by simp_all
        from go [OF inv] obtain ok2 w2 where
          "delete_entries k w1 path names = Some (ok2, w2)"
          "wf_node (root w2)" "height (root w2) \<le> H" "cwd w2 = cwd w" by blast
        with nd Some False u inv show ?thesis by (cases ok1) auto
      qed
    qed
  qed
qed

lemma delete_returns:
  "wf_node (root w) \<Longrightarrow> height (root w) \<le> H \<Longrightarrow> 0 < k \<Longrightarrow> H < k + resolved_depth w path \<Longrightarrow>
   \<exists>ok w'. deleteDirectoryRecursive k w path = Some (ok, w')
     \<and> wf_node (root w') \<and> height (root w') \<le> H \<and> cwd w' = cwd w"
proof (induction k arbitrary: w path)
  case 0
  then show ?case by simp
next
  case (Suc k)
  show ?case
  proof (cases "opendir w path")
    case None
    with Suc.prems show ?thesis by auto
  next
    case (Some names)
    then obtain m d es where at: "node_at w path = Some (Dir m d es)"
      and names: "names = ''.'' # ''..'' # map fst es"
      by (auto simp: opendir_def split: option.splits node.splits if_splits)
    from at obtain p where p: "resolve w path = Some p" "lookup (root w) p = Some (Dir m d es)"
      by (auto simp: node_at_def split: option.splits)
    from resolve_walk(1) [OF p(1)] have ne: "path \<noteq> []" .
    from wf_lookup [OF Suc.prems(1) p(2)] names
    have ok: "\<forall>n \<in> set names. n = ''.'' \<or> n = ''..'' \<or> valid_name n" by auto
    from Suc.prems(4) have "H < Suc k + resolved_depth w path" by simp
    from delete_entries_total [OF Suc.IH ne Suc.prems(1,2) this ok] obtain ok1 w1 where
      loop: "delete_entries k w path names = Some (ok1, w1)"
      and inv: "wf_node (root w1)" "height (root w1) \<le> H" "cwd w1 = cwd w"
      by blast
    obtain ok2 w2 where r: "rmdir w1 path = (ok2, w2)" by (cases "rmdir w1 path")
    from rmdir_keeps [OF r inv(1,2)] inv(3)
    have "wf_node (root w2)" "height (root w2) \<le> H" "cwd w2 = cwd w" by simp_all
    with Some loop inv r show ?thesis by (cases ok1) auto
  qed
qed

subsection \<open>Creating entries in a well-formed store\<close>

















subsection \<open>The copy walk returns\<close>



subsection \<open>More fuel changes nothing\<close>


subsection \<open>The fallback of a move\<close>



lemma openable_trace [simp]: "openable (w\<lparr>trace := t\<rparr>) p = openable w p"
  by (simp add: openable_def split: option.splits node.splits)






subsection \<open>A move returns\<close>

lemma delete_returns_high:
  assumes "wf_node (root w)" and "height (root w) < fuel"
  shows "\<exists>ok w'. deleteDirectoryRecursive fuel w path = Some (ok, w')"
proof -
  from assms(2) have "0 < fuel" "height (root w) < fuel + resolved_depth w path" by simp_all
  from delete_returns [OF assms(1) order_refl this] show ?thesis by blast
qed



subsection \<open>The walk of the second search\<close>

lemma path_append_child:
  assumes "dir \<noteq> []" and "valid_name n"
  shows "\<exists>q. path_append dir n = q @ CHR ''/'' # n \<and> components q = components dir
            \<and> (q \<noteq> [] \<longrightarrow> hd q = hd dir) \<and> (q = [] \<longrightarrow> hd dir = CHR ''/'')"
proof (cases "last dir = CHR ''/''")
  case True
  from assms(2) have na: "\<not> is_absolute n" by (cases n) (auto simp: is_absolute_def valid_name_def)
  from assms(1) True have d: "dir = butlast dir @ ''/''"
    using append_butlast_last_id [of dir] by simp
  have c: "components (butlast dir @ ''/'') = components (butlast dir)"
    by (simp add: components_def split_slash_append)
  have "path_append dir n = butlast dir @ CHR ''/'' # n"
    using na assms(1) True d by (simp add: path_append_def)
  moreover have "components (butlast dir) = components dir" using c d by simp
  moreover have "butlast dir \<noteq> [] \<longrightarrow> hd (butlast dir) = hd dir"
    using d by (metis hd_append2)
  moreover have "butlast dir = [] \<longrightarrow> hd dir = CHR ''/''"
    using d by (metis append_Nil list.sel(1))
  ultimately show ?thesis by blast
next
  case False
  from assms(2) have na: "\<not> is_absolute n" by (cases n) (auto simp: is_absolute_def valid_name_def)
  have "path_append dir n = dir @ CHR ''/'' # n"
    using na assms(1) False by (simp add: path_append_def)
  with assms(1) show ?thesis by blast
qed

lemma filename_of_child:
  assumes "valid_name n"
  shows "filename_of (q @ CHR ''/'' # n) = n"
proof -
  from assms have "\<And>c. c \<in> set (rev n) \<Longrightarrow> c \<noteq> CHR ''/''" by (auto simp: valid_name_def)
  then have "takeWhile (\<lambda>c. c \<noteq> CHR ''/'') (rev n @ CHR ''/'' # rev q)
      = rev n @ takeWhile (\<lambda>c. c \<noteq> CHR ''/'') (CHR ''/'' # rev q)"
    by (rule takeWhile_append2)
  then show ?thesis by (simp add: filename_of_def)
qed

lemma resolve_appended:
  assumes "resolve w dir = Some p" and "lookup (root w) p = Some (Dir m d es)" and "valid_name n"
  shows "resolve w (path_append dir n) = (if m AND S_IXUSR \<noteq> 0 then Some (p @ [n]) else None)"
proof -
  note ne = resolve_walk(1) [OF assms(1)] and w = resolve_walk(2) [OF assms(1)]
  from path_append_child [OF ne assms(3)] obtain q where
    q: "path_append dir n = q @ CHR ''/'' # n" "components q = components dir"
       "q \<noteq> [] \<longrightarrow> hd q = hd dir" "q = [] \<longrightarrow> hd dir = CHR ''/''"
    by blast
  have hd: "hd (q @ CHR ''/'' # n) = CHR ''/'' \<longleftrightarrow> hd dir = CHR ''/''"
    using q(3,4) by (cases q) auto
  from assms(3) have c: "components (q @ CHR ''/'' # n) = components dir @ [n]"
    by (simp add: components_child valid_name_def q(2))
  from assms(3) have nd: "n \<noteq> ''.''" "n \<noteq> ''..''" by (auto simp: valid_name_def)
  have "resolve w (q @ CHR ''/'' # n)
      = walk (root w) (if hd dir = CHR ''/'' then [] else cwd w) (components dir @ [n])"
    using resolve_no_slash [of "q @ CHR ''/'' # n" w] last_child [OF assms(3), of q]
    by (simp only: hd c) simp
  also have "\<dots> = (if m AND S_IXUSR \<noteq> 0 then Some (p @ [n]) else None)"
    using w nd assms(2) by (simp add: walk_append)
  finally show ?thesis by (simp only: q(1))
qed

lemma opendir_entries_appended:
  assumes "resolve w dir = Some p" and "lookup (root w) p = Some (Dir m d es)" and "valid_name n"
    and "map_of es n = Some ch"
  shows "opendir_entries w (path_append dir n) =
     (case ch of
        Dir m' d' es' \<Rightarrow>
          if m AND S_IXUSR \<noteq> 0 \<and> m' AND S_IRUSR \<noteq> 0
          then Some (map (\<lambda>e. (fst e, is_dir (snd e))) es') else None
      | File m' b' \<Rightarrow> None)"
  using resolve_appended [OF assms(1-3)] assms(2,4)
  by (simp add: opendir_entries_def node_at_def lookup_append split: node.splits)

lemma hits_append: "hits term (xs @ ys) = hits term xs @ hits term ys"
  by (simp add: hits_def)

lemma hits_Nil [simp]: "hits term [] = []"
  by (simp add: hits_def)

lemma name_contains_code: "name_contains term n \<longleftrightarrow> str_find n term \<noteq> None"
  by (simp only: name_contains_def str_find_iff)

lemma listed_Dir:
  "listed path (Dir m d es) =
     (if m AND S_IRUSR \<noteq> 0 then listed_below path (m AND S_IXUSR \<noteq> 0) es else [])"
  by (simp add: listed_below_def)

lemma walk_search_correct:
  "resolve w dir = Some p \<Longrightarrow> lookup (root w) p = Some (Dir m d es) \<Longrightarrow> wf_node (Dir m d es) \<Longrightarrow>
   height (Dir m d es) \<le> Suc k \<Longrightarrow> set es' \<subseteq> set es \<Longrightarrow>
   walk_search k w term dir (map (\<lambda>e. (fst e, is_dir (snd e))) es') found
     = Some (found @ hits term (listed_below dir (m AND S_IXUSR \<noteq> 0) es'))"
proof (induction k arbitrary: dir p m d es es' found)
  case 0
  note res = "0.prems"(1) and dir = "0.prems"(2) and wf = "0.prems"(3) and h = "0.prems"(4)
  from h have flat: "e \<in> set es \<Longrightarrow> \<not> is_dir (snd e)" for e
    using height_child [of e es m d] by (cases "snd e") auto
  from "0.prems"(5) show ?case
  proof (induction es' arbitrary: found)
    case Nil
    then show ?case by (simp add: hits_def listed_below_def)
  next
    case (Cons e es')
    obtain n ch where e: "e = (n, ch)" by (cases e)
    from Cons.prems e have mem: "(n, ch) \<in> set es" by simp
    with wf have vn: "valid_name n" by auto
    from flat [OF mem] have nd: "\<not> is_dir ch" by simp
    then have l: "listed (path_append dir n) ch = []" by (cases ch) auto
    from path_append_child [OF resolve_walk(1) [OF res] vn] obtain q where
      q: "path_append dir n = q @ CHR ''/'' # n" by blast
    have fn: "filename_of (path_append dir n) = n"
      unfolding q by (rule filename_of_child [OF vn])
    from Cons.prems have sub: "set es' \<subseteq> set es" by simp
    have unf: "hits term (listed_below dir x ((n, ch) # es'))
        = (if name_contains term n then [path_append dir n] else []) @ hits term (listed_below dir x es')"
      for x
      by (simp add: listed_below_def hits_def l)
    show ?case
      using nd Cons.IH [OF sub] by (simp add: e Let_def fn unf name_contains_code)
  qed
next
  case (Suc k)
  note res = Suc.prems(1) and dir = Suc.prems(2) and wf = Suc.prems(3) and h = Suc.prems(4)
  from Suc.prems(5) show ?case
  proof (induction es' arbitrary: found)
    case Nil
    then show ?case by (simp add: hits_def listed_below_def)
  next
    case (Cons e es')
    obtain n ch where e: "e = (n, ch)" by (cases e)
    from Cons.prems e have mem: "(n, ch) \<in> set es" by simp
    with wf have vn: "valid_name n" and wfc: "wf_node ch" and dist: "distinct (map fst es)" by auto
    from dist mem have mo: "map_of es n = Some ch" by simp
    from path_append_child [OF resolve_walk(1) [OF res] vn] obtain q where
      q: "path_append dir n = q @ CHR ''/'' # n" by blast
    have fn: "filename_of (path_append dir n) = n"
      unfolding q by (rule filename_of_child [OF vn])
    from Cons.prems have sub: "set es' \<subseteq> set es" by simp
    define own where "own = (if name_contains term n then [path_append dir n] else [])"
    define x where "x = (m AND S_IXUSR \<noteq> 0)"
    have unf: "hits term (listed_below dir x ((n, ch) # es'))
        = own @ hits term (if x then listed (path_append dir n) ch else [])
          @ hits term (listed_below dir x es')"
      by (simp add: listed_below_def hits_def own_def)
    have od: "opendir_entries w (path_append dir n) =
       (case ch of
          Dir m' d' es' \<Rightarrow>
            if x \<and> m' AND S_IRUSR \<noteq> 0
            then Some (map (\<lambda>e. (fst e, is_dir (snd e))) es') else None
        | File m' b' \<Rightarrow> None)"
      unfolding x_def by (rule opendir_entries_appended [OF res dir vn mo])
    show ?case
    proof (cases ch)
      case (File m' b')
      then have nd: "\<not> is_dir ch" and l: "listed (path_append dir n) ch = []" by simp_all
      show ?thesis
        using Cons.IH [OF sub]
        by (simp add: e Let_def fn unf name_contains_code own_def x_def [symmetric] nd l)
    next
      case (Dir m' d' sub')
      then have isd: "is_dir ch" by simp
      have od': "opendir_entries w (path_append dir n) =
          (if x \<and> m' AND S_IRUSR \<noteq> 0 then Some (map (\<lambda>e. (fst e, is_dir (snd e))) sub') else None)"
        using od Dir by simp
      show ?thesis
      proof (cases "x \<and> m' AND S_IRUSR \<noteq> 0")
        case False
        then have l: "(if x then listed (path_append dir n) ch else []) = []"
          by (auto simp: Dir)
        from False have od'': "opendir_entries w (path_append dir n) = None"
          by (simp add: od')
        show ?thesis
          using Cons.IH [OF sub]
          by (simp add: e Let_def fn unf name_contains_code own_def x_def [symmetric] isd l od'')
      next
        case True
        from True have xx: "m AND S_IXUSR \<noteq> 0" by (simp add: x_def)
        have rc: "resolve w (path_append dir n) = Some (p @ [n])"
          using resolve_appended [OF res dir vn] xx by simp
        have lc: "lookup (root w) (p @ [n]) = Some (Dir m' d' sub')"
          using dir mo Dir by (simp add: lookup_append)
        from height_child [OF mem, of m d] h Dir have hc: "height (Dir m' d' sub') \<le> Suc k" by simp
        from wfc Dir have wfd: "wf_node (Dir m' d' sub')" by simp
        have inner: "walk_search k w term (path_append dir n) (map (\<lambda>e. (fst e, is_dir (snd e))) sub') acc
            = Some (acc @ hits term (listed (path_append dir n) ch))" for acc
          using Suc.IH [OF rc lc wfd hc subset_refl, of acc] True
          by (simp add: Dir listed_below_def)
        from True have od'': "opendir_entries w (path_append dir n)
            = Some (map (\<lambda>e. (fst e, is_dir (snd e))) sub')"
          by (simp add: od')
        from True have l: "(if x then listed (path_append dir n) ch else [])
            = listed (path_append dir n) ch" by simp
        show ?thesis
          using Cons.IH [OF sub]
          by (simp add: e Let_def fn unf name_contains_code own_def x_def [symmetric] isd l od'' inner)
      qed
    qed
  qed
qed

lemma searchRecursive_fs_correct:
  assumes "node_at w (current e) = Some (Dir m d es)" and "wf_node (Dir m d es)"
    and "height (Dir m d es) \<le> Suc k"
  shows "searchRecursive_fs k e w term
     = Some (MsgSearching term (current e) # map MsgHit (hits term (listed (current e) (Dir m d es)))
               @ [MsgFoundItems (length (hits term (listed (current e) (Dir m d es))))], e, w)"
proof -
  from assms(1) obtain p where p: "resolve w (current e) = Some p" "lookup (root w) p = Some (Dir m d es)"
    by (auto simp: node_at_def split: option.splits)
  show ?thesis
  proof (cases "m AND S_IRUSR \<noteq> 0")
    case True
    with assms(1) have od: "opendir_entries w (current e) = Some (map (\<lambda>e. (fst e, is_dir (snd e))) es)"
      by (simp add: opendir_entries_def)
    from walk_search_correct [OF p assms(2,3) subset_refl, of "term" "[]"] True od
    show ?thesis by (simp add: searchRecursive_fs_def listed_below_def)
  next
    case False
    with assms(1) have od: "opendir_entries w (current e) = None"
      by (simp add: opendir_entries_def)
    from False od show ?thesis by (simp add: searchRecursive_fs_def hits_def)
  qed
qed

lemma moveFile_runs:
  assumes "moveFile fuel e w source destination = Some (msgs, e', w')"
  shows "e' = e \<and> (\<exists>evs. trace w' = trace w @ evs
            \<and> move_protocol (currentPath e @ ''/'' @ source) msgs evs
            \<and> (evs = [] \<longrightarrow> w' = w))"
proof (cases "stat w (currentPath e @ ''/'' @ source)")
  case None
  with assms have "msgs = [ErrSourceDoesNotExist]" "e' = e" "w' = w"
    by (simp_all add: moveFile_def Let_def)
  then show ?thesis by (simp add: move_protocol_def)
next
  case (Some srcStat)
  define srcPath where "srcPath = currentPath e @ ''/'' @ source"
  from Some have st: "stat w srcPath = Some srcStat" by (simp add: srcPath_def)
  define destPath where "destPath = (if destination \<noteq> [] \<and> hd destination = CHR ''/'' then destination
                     else currentPath e @ ''/'' @ destination)"
  note unf = moveFile_unfold [OF srcPath_def st destPath_def, of fuel]
  show ?thesis
  proof (cases "resolved_destination w source destPath")
    case (Inl err)
    with assms unf have m: "msgs = [err]" "e' = e" "w' = w" by simp_all
    from Inl have "err = ErrAlreadyExistsInDestination (basename source) \<or> err = ErrDestinationExistsAsFile"
      by (auto simp: resolved_destination_def split: option.splits if_splits)
    with m show ?thesis by (auto simp: move_protocol_def)
  next
    case (Inr dst)
    obtain renamed w1 where rn: "rename w srcPath dst = (renamed, w1)"
      by (cases "rename w srcPath dst")
    from assms unf Inr rn move_after_rename [OF rn, of "S_ISDIR srcStat" e fuel msgs e' w']
    show ?thesis unfolding srcPath_def [symmetric] by auto
  qed
qed

section \<open>The claims\<close>

subsection \<open>C1: a directory copy and the child that fails\<close>

text \<open>
  C1, in the form the code satisfies. In \<^verbatim>\<open>copyDirectoryRecursive\<close> of \<^verbatim>\<open>File_Explorer.cpp\<close>, when the copy
  of one child entry fails the copy of the directory stops there: if the loop over the
  entries \<open>pre\<close> went well and the entry \<open>name\<close> after them fails, leaving the system
  in \<open>w1\<close>, then the loop over all entries ends in that same \<open>w1\<close> with result
  \<open>False\<close>, whatever siblings \<open>rest\<close> remain, and so does the directory copy. Nothing
  is tried for the remaining siblings, and no list of failures is kept: the result is
  one truth value.
\<close>

theorem copy_stops_at_failing_child:
  assumes "stat w src = Some m" and "mkdir w dst m = (True, wm)"
    and "opendir wm src = Some (pre @ name # rest)"
    and "copy_entries k wm src dst pre = Some (True, wp)"
    and "copy_entries k wp src dst [name] = Some (False, w1)"
  shows "copy_entries k wm src dst (pre @ name # rest) = Some (False, w1)
         \<and> copyDirectoryRecursive (Suc k) w src dst = Some (False, w1)"
proof -
  have "copy_entries k wp src dst ([name] @ rest) = Some (False, w1)"
    unfolding copy_entries_append [of k wp src dst "[name]" rest] using assms(5) by simp
  then have loop: "copy_entries k wm src dst (pre @ name # rest) = Some (False, w1)"
    unfolding copy_entries_append [of k wm src dst pre "name # rest"] using assms(4) by simp
  with assms(1-3) show ?thesis by simp
qed

text \<open>
  On the two-device store: copying \<^verbatim>\<open>/h/d\<close> to \<^verbatim>\<open>/h/e\<close> makes the directory, passes
  \<^verbatim>\<open>.\<close> and \<^verbatim>\<open>..\<close>, fails on the unreadable \<^verbatim>\<open>p\<close> and returns at once.
\<close>

theorem copy_stops_at_failing_child_witness:
  "stat wX ''/h/d'' = Some 16877
   \<and> mkdir wX ''/h/e'' 16877 = (True, wX_e)
   \<and> opendir wX_e ''/h/d'' = Some ([''.'', ''..''] @ ''p'' # [''q''])
   \<and> copy_entries 4 wX_e ''/h/d'' ''/h/e'' [''.'', ''..''] = Some (True, wX_e)
   \<and> copy_entries 4 wX_e ''/h/d'' ''/h/e'' [''p''] = Some (False, wX_e)
   \<and> copy_entries 4 wX_e ''/h/d'' ''/h/e'' ([''.'', ''..''] @ ''p'' # [''q'']) = Some (False, wX_e)
   \<and> copyDirectoryRecursive (Suc 4) wX ''/h/d'' ''/h/e'' = Some (False, wX_e)"
proof -
  have a: "stat wX ''/h/d'' = Some 16877" by code_simp
  have b: "mkdir wX ''/h/e'' 16877 = (True, wX_e)" by code_simp
  have c: "opendir wX_e ''/h/d'' = Some ([''.'', ''..''] @ ''p'' # [''q''])" by code_simp
  have d: "copy_entries 4 wX_e ''/h/d'' ''/h/e'' [''.'', ''..''] = Some (True, wX_e)" by code_simp
  have e: "copy_entries 4 wX_e ''/h/d'' ''/h/e'' [''p''] = Some (False, wX_e)" by code_simp
  from copy_stops_at_failing_child [OF a b c d e] a b c d e show ?thesis by blast
qed

text \<open>
  As the specification words it, the property fails on the same input: \<^verbatim>\<open>copyFile\<close> reports that the
  directory cannot be copied, and the sibling \<^verbatim>\<open>q\<close>, which is there and readable, has
  not been copied; the one thing tried was the \<^verbatim>\<open>mkdir\<close> of the destination.
\<close>

theorem copy_abandons_siblings:
  "(case copyFile 5 ex0 wX ''d'' ''e'' of
      None \<Rightarrow> False
    | Some (msgs, e', w') \<Rightarrow>
        msgs = [CopyingDirectoryRecursively, ErrCannotCopyDirectory]
        \<and> stat w' ''/h/d/q'' \<noteq> None \<and> stat w' ''/h/e/q'' = None
        \<and> trace w' = [(Mkdir ''/h/e'' 16877, True)])"
  by code_simp

subsection \<open>C2: what a search returns\<close>

text \<open>
  C2, in the form the code satisfies. \<^verbatim>\<open>searchRecursive\<close> of \<^verbatim>\<open>File_Explorer.cpp\<close>: for every root path
  that names a well-formed directory tree and every search term, with a recursion
  counter above the height of the tree, the search returns exactly the entries of the
  subtree whose base name contains the term as a substring, letter case ignored, in
  pre-order (a directory is shown with a slash after it).
\<close>

theorem search_returns_matching_entries:
  assumes "node_at w path = Some dir" and "wf_node dir" and "height dir < fuel"
  shows "searchRecursive fuel w path term [] = Some (matching term (subtree_entries path dir))"
proof -
  from assms(1) obtain p where "resolve w path = Some p" "lookup (root w) p = Some dir"
    by (auto simp: node_at_def split: option.splits)
  from searchRecursive_correct [OF this assms(2,3), of "term" "[]"]
  show ?thesis by simp
qed

text \<open>
  The example of the specification: \<^verbatim>\<open>report\<close> finds \<^verbatim>\<open>Report.txt\<close> and
  \<^verbatim>\<open>monthly_report\<close> and not \<^verbatim>\<open>readme.md\<close>.
\<close>

theorem search_returns_matching_entries_witness:
  "node_at wS ''/root'' = Some treeS \<and> wf_node treeS \<and> height treeS < 5
   \<and> searchRecursive 5 wS ''/root'' ''report'' []
       = Some (matching ''report'' (subtree_entries ''/root'' treeS))
   \<and> matching ''report'' (subtree_entries ''/root'' treeS)
       = [''/root/a/Report.txt'', ''/root/b/monthly_report/'']"
proof -
  have a: "node_at wS ''/root'' = Some treeS" by code_simp
  have b: "wf_node treeS" by code_simp
  have c: "height treeS < 5" by code_simp
  have d: "searchRecursive 5 wS ''/root'' ''report'' []
             = Some [''/root/a/Report.txt'', ''/root/b/monthly_report/'']"
    by code_simp
  from search_returns_matching_entries [OF a b c, of "''report''"] a b c d
  show ?thesis by simp
qed

text \<open>
  As the specification words it, the property fails on \<^verbatim>\<open>searchRecursive\<close> of \<^verbatim>\<open>file_explorer.cpp\<close>, which
  compares with \<^verbatim>\<open>name.find(term)\<close> and so respects letter case: on the same tree
  \<^verbatim>\<open>report\<close> finds \<^verbatim>\<open>monthly_report\<close> alone.
\<close>

theorem search_fs_is_case_sensitive:
  "searchRecursive_fs 5 fxS wS ''report''
     = Some ([MsgSearching ''report'' ''/root'', MsgHit ''/root/b/monthly_report'',
              MsgFoundItems 1], fxS, wS)"
  by code_simp

subsection \<open>C3: rename first, then copy and delete\<close>




subsection \<open>C4: where a move lands\<close>

text \<open>
  C4, in the form the code satisfies. \<^verbatim>\<open>moveFile\<close> of \<^verbatim>\<open>File_Explorer.cpp\<close>, for an existing source and an
  existing destination \<open>destPath\<close>. When the destination is a directory the effective
  destination is \<open>destPath/basename(source)\<close>: if that exists already the call fails
  with the already-exists error and explorer and system are exactly as before; if not,
  that path is what \<^verbatim>\<open>rename\<close> is first tried on, and a successful rename ends the call
  with the report naming that path. When the destination exists and is not a directory
  the call fails with the destination-is-a-file error, again with nothing changed.
\<close>

theorem moveFile_into_directory:
  assumes src: "stat w (currentPath e @ ''/'' @ source) = Some srcStat"
    and dp: "destPath = (if destination \<noteq> [] \<and> hd destination = CHR ''/'' then destination
                         else currentPath e @ ''/'' @ destination)"
    and dst: "stat w destPath = Some destStat"
  shows "if S_ISDIR destStat then
           (if stat w (destPath @ ''/'' @ basename source) \<noteq> None
            then moveFile fuel e w source destination
                   = Some ([ErrAlreadyExistsInDestination (basename source)], e, w)
            else (\<forall>w1. rename w (currentPath e @ ''/'' @ source) (destPath @ ''/'' @ basename source)
                          = (True, w1) \<longrightarrow>
                        moveFile fuel e w source destination
                          = Some ([if S_ISDIR srcStat
                                   then DirectoryMovedTo (destPath @ ''/'' @ basename source)
                                   else FileMovedTo (destPath @ ''/'' @ basename source)], e, w1))
               \<and> (\<forall>msgs e' w'. moveFile fuel e w source destination = Some (msgs, e', w') \<longrightarrow>
                     (\<exists>ok evs. trace w' = trace w
                        @ (Rename (currentPath e @ ''/'' @ source)
                             (destPath @ ''/'' @ basename source), ok) # evs)))
         else moveFile fuel e w source destination = Some ([ErrDestinationExistsAsFile], e, w)"
proof -
  define srcPath where "srcPath = currentPath e @ ''/'' @ source"
  define dst where "dst = destPath @ ''/'' @ basename source"
  from src have st: "stat w srcPath = Some srcStat" by (simp add: srcPath_def)
  note unf = moveFile_unfold [OF srcPath_def st dp, of fuel]
  show ?thesis
    unfolding srcPath_def [symmetric] dst_def [symmetric]
  proof (cases "S_ISDIR destStat")
    case False
    with assms(3) have "resolved_destination w source destPath = Inl ErrDestinationExistsAsFile"
      by (simp add: resolved_destination_def)
    with unf False show "if S_ISDIR destStat then
           (if stat w dst \<noteq> None
            then moveFile fuel e w source destination
                   = Some ([ErrAlreadyExistsInDestination (basename source)], e, w)
            else (\<forall>w1. rename w srcPath dst = (True, w1) \<longrightarrow>
                        moveFile fuel e w source destination
                          = Some ([if S_ISDIR srcStat then DirectoryMovedTo dst
                                   else FileMovedTo dst], e, w1))
               \<and> (\<forall>msgs e' w'. moveFile fuel e w source destination = Some (msgs, e', w') \<longrightarrow>
                     (\<exists>ok evs. trace w' = trace w @ (Rename srcPath dst, ok) # evs)))
         else moveFile fuel e w source destination = Some ([ErrDestinationExistsAsFile], e, w)"
      by simp
  next
    case isd: True
    show "if S_ISDIR destStat then
           (if stat w dst \<noteq> None
            then moveFile fuel e w source destination
                   = Some ([ErrAlreadyExistsInDestination (basename source)], e, w)
            else (\<forall>w1. rename w srcPath dst = (True, w1) \<longrightarrow>
                        moveFile fuel e w source destination
                          = Some ([if S_ISDIR srcStat then DirectoryMovedTo dst
                                   else FileMovedTo dst], e, w1))
               \<and> (\<forall>msgs e' w'. moveFile fuel e w source destination = Some (msgs, e', w') \<longrightarrow>
                     (\<exists>ok evs. trace w' = trace w @ (Rename srcPath dst, ok) # evs)))
         else moveFile fuel e w source destination = Some ([ErrDestinationExistsAsFile], e, w)"
    proof (cases "stat w dst \<noteq> None")
      case True
      with assms(3) isd have "resolved_destination w source destPath
          = Inl (ErrAlreadyExistsInDestination (basename source))"
        by (simp add: resolved_destination_def dst_def)
      with unf isd True show ?thesis by simp
    next
      case free: False
      with assms(3) isd have rd: "resolved_destination w source destPath = Inr dst"
        by (simp add: resolved_destination_def dst_def)
      have a: "moveFile fuel e w source destination
            = Some ([if S_ISDIR srcStat then DirectoryMovedTo dst else FileMovedTo dst], e, w1)"
        if "rename w srcPath dst = (True, w1)" for w1
        using unf rd that by simp
      have b: "\<exists>ok evs. trace w' = trace w @ (Rename srcPath dst, ok) # evs"
        if m: "moveFile fuel e w source destination = Some (msgs, e', w')" for msgs e' w'
      proof -
        obtain renamed w1 where rn: "rename w srcPath dst = (renamed, w1)"
          by (cases "rename w srcPath dst")
        from m unf rd rn
          move_after_rename [OF rn, of "S_ISDIR srcStat" e fuel msgs e' w']
        show ?thesis by auto
      qed
      from a b isd free show ?thesis by simp
    qed
  qed
qed

text \<open>
  In \<^verbatim>\<open>/h\<close>: moving \<^verbatim>\<open>a\<close> to the directory \<^verbatim>\<open>d\<close> lands at \<^verbatim>\<open>/h/d/a\<close>; moving \<^verbatim>\<open>d/f\<close>
  to \<^verbatim>\<open>d\<close> is refused because \<^verbatim>\<open>/h/d/f\<close> exists; moving \<^verbatim>\<open>a\<close> to the file \<^verbatim>\<open>b\<close> is
  refused.
\<close>

theorem moveFile_into_directory_witness:
  "stat w0 (currentPath ex0 @ ''/'' @ ''a'') = Some 33188
   \<and> stat w0 ''/h/d'' = Some 16877 \<and> S_ISDIR 16877
   \<and> stat w0 (''/h/d'' @ ''/'' @ basename ''a'') = None
   \<and> rename w0 (currentPath ex0 @ ''/'' @ ''a'') (''/h/d'' @ ''/'' @ basename ''a'')
        = (True, w0_moved)
   \<and> moveFile 5 ex0 w0 ''a'' ''d'' = Some ([FileMovedTo ''/h/d/a''], ex0, w0_moved)
   \<and> stat w0 (currentPath ex0 @ ''/'' @ ''d/f'') = Some 33188
   \<and> stat w0 (''/h/d'' @ ''/'' @ basename ''d/f'') \<noteq> None
   \<and> moveFile 5 ex0 w0 ''d/f'' ''d'' = Some ([ErrAlreadyExistsInDestination ''f''], ex0, w0)
   \<and> stat w0 ''/h/b'' = Some 33152 \<and> \<not> S_ISDIR 33152
   \<and> moveFile 5 ex0 w0 ''a'' ''b'' = Some ([ErrDestinationExistsAsFile], ex0, w0)"
proof -
  have a: "stat w0 (currentPath ex0 @ ''/'' @ ''a'') = Some 33188" by code_simp
  have d: "stat w0 ''/h/d'' = Some 16877" by code_simp
  have pd: "''/h/d'' = (if ''d'' \<noteq> [] \<and> hd ''d'' = CHR ''/'' then ''d''
                        else currentPath ex0 @ ''/'' @ ''d'')" by code_simp
  have isd: "S_ISDIR 16877" by code_simp
  have free: "stat w0 (''/h/d'' @ ''/'' @ basename ''a'') = None" by code_simp
  have rn: "rename w0 (currentPath ex0 @ ''/'' @ ''a'') (''/h/d'' @ ''/'' @ basename ''a'')
        = (True, w0_moved)" by code_simp
  have nm: "[if S_ISDIR 33188 then DirectoryMovedTo (''/h/d'' @ ''/'' @ basename ''a'')
             else FileMovedTo (''/h/d'' @ ''/'' @ basename ''a'')] = [FileMovedTo ''/h/d/a'']"
    by code_simp
  from moveFile_into_directory [OF a pd d, of 5] isd free
  have "\<forall>w1. rename w0 (currentPath ex0 @ ''/'' @ ''a'') (''/h/d'' @ ''/'' @ basename ''a'')
                = (True, w1) \<longrightarrow>
              moveFile 5 ex0 w0 ''a'' ''d''
                = Some ([if S_ISDIR 33188 then DirectoryMovedTo (''/h/d'' @ ''/'' @ basename ''a'')
                         else FileMovedTo (''/h/d'' @ ''/'' @ basename ''a'')], ex0, w1)"
    by (simp only: if_True if_False not_None_eq option.distinct simp_thms) blast
  with rn have m1: "moveFile 5 ex0 w0 ''a'' ''d''
                = Some ([if S_ISDIR 33188 then DirectoryMovedTo (''/h/d'' @ ''/'' @ basename ''a'')
                         else FileMovedTo (''/h/d'' @ ''/'' @ basename ''a'')], ex0, w0_moved)"
    by blast
  have m1': "moveFile 5 ex0 w0 ''a'' ''d'' = Some ([FileMovedTo ''/h/d/a''], ex0, w0_moved)"
    using m1 unfolding nm .
  have f: "stat w0 (currentPath ex0 @ ''/'' @ ''d/f'') = Some 33188" by code_simp
  have taken: "stat w0 (''/h/d'' @ ''/'' @ basename ''d/f'') \<noteq> None" by code_simp
  have bn: "basename ''d/f'' = ''f''" by code_simp
  from moveFile_into_directory [OF f pd d, of 5] isd taken
  have m2: "moveFile 5 ex0 w0 ''d/f'' ''d'' = Some ([ErrAlreadyExistsInDestination ''f''], ex0, w0)"
    by (simp only: if_True bn simp_thms)
  have b: "stat w0 ''/h/b'' = Some 33152" by code_simp
  have pb: "''/h/b'' = (if ''b'' \<noteq> [] \<and> hd ''b'' = CHR ''/'' then ''b''
                        else currentPath ex0 @ ''/'' @ ''b'')" by code_simp
  have nodir: "\<not> S_ISDIR 33152" by code_simp
  from moveFile_into_directory [OF a pb b, of 5] nodir
  have m3: "moveFile 5 ex0 w0 ''a'' ''b'' = Some ([ErrDestinationExistsAsFile], ex0, w0)"
    by (simp only: if_False simp_thms)
  from a d isd free rn m1' f taken m2 b nodir m3 show ?thesis by blast
qed

text \<open>
  As the specification words it, the property fails on \<^verbatim>\<open>moveItem\<close> of \<^verbatim>\<open>file_explorer.cpp\<close>, which hands the
  destination to \<^verbatim>\<open>rename\<close> as it is: with the existing directory \<^verbatim>\<open>/h/d\<close> as destination
  the file is not moved to \<^verbatim>\<open>/h/d/a\<close>; the rename onto the directory is tried and fails.
\<close>

theorem moveItem_onto_directory:
  "fs_is_directory wX ''/h/d''
   \<and> moveItem fx0 wX ''a'' ''d''
       = ([MsgMoveFailed], Returns False, fx0, wX\<lparr>trace := [(Rename ''/h/a'' ''/h/d'', False)]\<rparr>)"
  by code_simp

subsection \<open>C5: a delete that is not confirmed\<close>

text \<open>
  C5. For every non-empty directory, a delete that is not confirmed reports the
  cancellation and changes nothing. In \<^verbatim>\<open>File_Explorer.cpp\<close> (\<^verbatim>\<open>deleteItem\<close>) the plain
  \<^verbatim>\<open>rmdir\<close> tried first fails on the non-empty directory, the question is asked, and any
  answer but \<^verbatim>\<open>yes\<close> cancels: explorer and store are as before, the trace has only the
  failed \<^verbatim>\<open>rmdir\<close> more; asked again, the call does the same again. In
  \<^verbatim>\<open>file_explorer.cpp\<close> (\<^verbatim>\<open>removeRecursively\<close>) any answer but \<^verbatim>\<open>y\<close> or \<^verbatim>\<open>Y\<close> aborts
  with nothing tried at all.
\<close>

theorem remove_unconfirmed_changes_nothing:
  assumes "node_at w (currentPath e @ ''/'' @ name) = Some (Dir m d es)" and "es \<noteq> []"
    and "confirm \<noteq> ''yes''"
    and "fs_exists v (in_current ef item)" and "ans \<noteq> ''y''" and "ans \<noteq> ''Y''"
  shows "deleteItem fuel e w name confirm
           = Some ([AskDeleteRecursively, OperationCancelled], e,
                   w\<lparr>trace := trace w @ [(Rmdir (currentPath e @ ''/'' @ name), False)]\<rparr>)
         \<and> root (w\<lparr>trace := trace w @ [(Rmdir (currentPath e @ ''/'' @ name), False)]\<rparr>) = root w
         \<and> deleteItem fuel e
               (w\<lparr>trace := trace w @ [(Rmdir (currentPath e @ ''/'' @ name), False)]\<rparr>) name confirm
           = Some ([AskDeleteRecursively, OperationCancelled], e,
                   w\<lparr>trace := trace w @ [(Rmdir (currentPath e @ ''/'' @ name), False),
                                            (Rmdir (currentPath e @ ''/'' @ name), False)]\<rparr>)
         \<and> removeRecursively ef v item ans
           = ([MsgAreYouSure (in_current ef item), MsgAborted], Returns False, ef, v)"
proof -
  define p where "p = currentPath e @ ''/'' @ name"
  have isd: "S_ISDIR (st_mode_of (Dir m d es))" by (simp only: S_ISDIR_st_mode is_dir.simps)
  have one: "deleteItem fuel e u name confirm
           = Some ([AskDeleteRecursively, OperationCancelled], e, u\<lparr>trace := trace u @ [(Rmdir p, False)]\<rparr>)"
    if "node_at u p = Some (Dir m d es)" for u
  proof -
    from that have st: "stat u p = Some (st_mode_of (Dir m d es))" by (simp add: stat_def)
    from rmdir_nonempty [OF that assms(2)] assms(3) st isd show ?thesis
      unfolding deleteItem_def Let_def p_def [symmetric] by (simp del: st_mode_of.simps)
  qed
  from assms(1) have n1: "node_at w p = Some (Dir m d es)" by (simp add: p_def)
  then have n2: "node_at (w\<lparr>trace := trace w @ [(Rmdir p, False)]\<rparr>) p = Some (Dir m d es)"
    by simp
  from one [OF n1] one [OF n2] assms(4-6) show ?thesis
    unfolding p_def [symmetric] by (simp add: removeRecursively_def Let_def)
qed

theorem remove_unconfirmed_changes_nothing_witness:
  "node_at w0 (currentPath ex0 @ ''/'' @ ''d'') = Some (Dir 493 1 [(''f'', File 420 ''z'')])
   \<and> [(''f'', File 420 ''z'')] \<noteq> [] \<and> ''no'' \<noteq> ''yes''
   \<and> fs_exists w0 (in_current fx0 ''d'') \<and> ''n'' \<noteq> ''y'' \<and> ''n'' \<noteq> ''Y''
   \<and> deleteItem 5 ex0 w0 ''d'' ''no''
       = Some ([AskDeleteRecursively, OperationCancelled], ex0,
               w0\<lparr>trace := trace w0 @ [(Rmdir (currentPath ex0 @ ''/'' @ ''d''), False)]\<rparr>)
   \<and> removeRecursively fx0 w0 ''d'' ''n''
       = ([MsgAreYouSure (in_current fx0 ''d''), MsgAborted], Returns False, fx0, w0)"
proof -
  have a: "node_at w0 (currentPath ex0 @ ''/'' @ ''d'') = Some (Dir 493 1 [(''f'', File 420 ''z'')])"
    by code_simp
  have b: "[(''f'', File 420 ''z'')] \<noteq> []" by simp
  have c: "''no'' \<noteq> ''yes''" by simp
  have d: "fs_exists w0 (in_current fx0 ''d'')" by code_simp
  have e: "''n'' \<noteq> ''y''" by simp
  have f: "''n'' \<noteq> ''Y''" by simp
  from remove_unconfirmed_changes_nothing [OF a b c d e f, of 5] a b c d e f
  show ?thesis by blast
qed

subsection \<open>C6: the order of a recursive delete\<close>

text \<open>
  C6. \<^verbatim>\<open>deleteDirectoryRecursive\<close> deletes depth first. On a well-formed tree that nothing
  keeps from being removed (every directory in it may be read, written and searched, and
  so may the directory that holds it), with a recursion counter that reaches its height,
  the call returns \<open>True\<close>; what it did is exactly \<open>removal_order\<close>: for every entry in
  turn everything below it and then the entry, the directory itself last; and the store
  it leaves is the old one without the tree. On any well-formed store a counter above the
  height of the store makes the call return. In every run that returns nothing is tried
  but removals below the directory, nothing after a removal that failed, and the
  \<^verbatim>\<open>rmdir\<close> of the directory itself only as the last call after all went well: in no
  failed run was the directory removed. When the deletion of a child fails after the
  entries \<open>pre\<close> went well, the loop ends at that child with \<open>False\<close> whatever siblings
  \<open>rest\<close> remain; the function then returns \<open>False\<close> in the very state the loop left, and
  \<^verbatim>\<open>deleteItem\<close>, once the answer is \<^verbatim>\<open>yes\<close>, reports that failure as "cannot delete
  directory".
\<close>

theorem delete_depth_first:
  "(plain_path path \<and> node_at w path = Some dir \<and> is_dir dir \<and> wf_node dir \<and> removable dir
      \<and> parent_writable (root w) (components path) \<and> height dir \<le> fuel \<longrightarrow>
      deleteDirectoryRecursive fuel w path
        = Some (True, w\<lparr>root := alter (components path) None (root w),
                        trace := trace w @ removal_order path dir\<rparr>))
   \<and> (wf_node (root t) \<and> height (root t) < g \<longrightarrow>
        (\<exists>ok t'. deleteDirectoryRecursive g t q = Some (ok, t')))
   \<and> (deleteDirectoryRecursive i a b = Some (ok, a') \<longrightarrow>
      (\<exists>evs. trace a' = trace a @ evs \<and> delete_result b ok evs
             \<and> (\<not> ok \<longrightarrow> (Rmdir b, True) \<notin> set evs)))
   \<and> (delete_entries k v d pre = Some (True, vp)
        \<and> delete_entries k vp d [name] = Some (False, v1) \<longrightarrow>
      delete_entries k v d (pre @ name # rest) = Some (False, v1))
   \<and> (opendir u p = Some names \<and> delete_entries j u p names = Some (False, u1) \<longrightarrow>
      deleteDirectoryRecursive (Suc j) u p = Some (False, u1))
   \<and> (stat x (currentPath e @ ''/'' @ item) = Some st \<and> S_ISDIR st
        \<and> rmdir x (currentPath e @ ''/'' @ item) = (False, x1)
        \<and> deleteDirectoryRecursive n x1 (currentPath e @ ''/'' @ item) = Some (False, x2) \<longrightarrow>
      deleteItem n e x item ''yes'' = Some ([AskDeleteRecursively, ErrCannotDeleteDirectory], e, x2))"
proof (intro conjI impI)
  assume a: "plain_path path \<and> node_at w path = Some dir \<and> is_dir dir \<and> wf_node dir \<and> removable dir
      \<and> parent_writable (root w) (components path) \<and> height dir \<le> fuel"
  then obtain p where p: "resolve w path = Some p" "lookup (root w) p = Some dir"
    by (auto simp: node_at_def split: option.splits)
  from a plain_path_resolved [OF _ p(1)] have pc: "p = components path" by simp
  from a p show "deleteDirectoryRecursive fuel w path
        = Some (True, w\<lparr>root := alter (components path) None (root w),
                        trace := trace w @ removal_order path dir\<rparr>)"
    unfolding pc by (intro delete_removes) simp_all
next
  assume "wf_node (root t) \<and> height (root t) < g"
  then show "\<exists>ok t'. deleteDirectoryRecursive g t q = Some (ok, t')"
    by (intro delete_returns_high) simp_all
next
  assume a: "deleteDirectoryRecursive i a b = Some (ok, a')"
  from delete_traces(1) [OF a] obtain evs where
    e: "trace a' = trace a @ evs" "delete_result b ok evs" by blast
  have "(Rmdir b, True) \<notin> set evs" if "\<not> ok"
    using e(2) that delete_run_not_self [of b _ _ True]
    by (auto simp: delete_result_def)
  with e show "\<exists>evs. trace a' = trace a @ evs \<and> delete_result b ok evs
             \<and> (\<not> ok \<longrightarrow> (Rmdir b, True) \<notin> set evs)"
    by blast
next
  assume a: "delete_entries k v d pre = Some (True, vp)
        \<and> delete_entries k vp d [name] = Some (False, v1)"
  then have "delete_entries k vp d ([name] @ rest) = Some (False, v1)"
    unfolding delete_entries_append [of k vp d "[name]" rest] by simp
  then show "delete_entries k v d (pre @ name # rest) = Some (False, v1)"
    unfolding delete_entries_append [of k v d pre "name # rest"] using a by simp
next
  assume "opendir u p = Some names \<and> delete_entries j u p names = Some (False, u1)"
  then show "deleteDirectoryRecursive (Suc j) u p = Some (False, u1)" by simp
next
  assume "stat x (currentPath e @ ''/'' @ item) = Some st \<and> S_ISDIR st
        \<and> rmdir x (currentPath e @ ''/'' @ item) = (False, x1)
        \<and> deleteDirectoryRecursive n x1 (currentPath e @ ''/'' @ item) = Some (False, x2)"
  then show "deleteItem n e x item ''yes''
      = Some ([AskDeleteRecursively, ErrCannotDeleteDirectory], e, x2)"
    by (simp add: deleteItem_def Let_def)
qed

text \<open>
  Deleting \<^verbatim>\<open>/h/d\<close>, which holds the directory \<^verbatim>\<open>s\<close> with the file \<^verbatim>\<open>g\<close> and the file \<^verbatim>\<open>f\<close>:
  \<^verbatim>\<open>g\<close> goes first, then \<^verbatim>\<open>s\<close>, then \<^verbatim>\<open>f\<close>, then \<^verbatim>\<open>d\<close>. In the store where \<^verbatim>\<open>/h/d\<close> is not
  writable the unlink of \<^verbatim>\<open>p\<close> fails: \<^verbatim>\<open>q\<close> is not tried, nor is the \<^verbatim>\<open>rmdir\<close>.
\<close>

theorem delete_depth_first_witness:
  "plain_path ''/h/d'' \<and> node_at wM ''/h/d'' = Some treeN \<and> is_dir treeN \<and> wf_node treeN
   \<and> removable treeN \<and> parent_writable (root wM) (components ''/h/d'') \<and> height treeN \<le> 2
   \<and> deleteDirectoryRecursive 2 wM ''/h/d''
       = Some (True, wM\<lparr>root := alter (components ''/h/d'') None (root wM),
                        trace := trace wM @ removal_order ''/h/d'' treeN\<rparr>)
   \<and> wM\<lparr>root := alter (components ''/h/d'') None (root wM),
          trace := trace wM @ removal_order ''/h/d'' treeN\<rparr> = wM_deleted
   \<and> trace wM_deleted = [(Unlink ''/h/d/s/g'', True), (Rmdir ''/h/d/s'', True),
                          (Unlink ''/h/d/f'', True), (Rmdir ''/h/d'', True)]
   \<and> node_at wM_deleted ''/h/d'' = None
   \<and> wf_node (root wM) \<and> height (root wM) < 5
   \<and> (\<exists>ok t'. deleteDirectoryRecursive 5 wM ''/h/d'' = Some (ok, t'))
   \<and> deleteDirectoryRecursive 3 w0 ''/h/d'' = Some (True, w0_deleted)
   \<and> trace w0_deleted = [(Unlink ''/h/d/f'', True), (Rmdir ''/h/d'', True)]
   \<and> (\<exists>evs. trace w0_deleted = trace w0 @ evs \<and> delete_result ''/h/d'' True evs)
   \<and> delete_entries 2 wD ''/h/d'' [''.'', ''..''] = Some (True, wD)
   \<and> delete_entries 2 wD ''/h/d'' [''p''] = Some (False, wD_failed)
   \<and> delete_entries 2 wD ''/h/d'' ([''.'', ''..''] @ ''p'' # [''q'']) = Some (False, wD_failed)
   \<and> opendir wD ''/h/d'' = Some ([''.'', ''..''] @ ''p'' # [''q''])
   \<and> deleteDirectoryRecursive (Suc 2) wD ''/h/d'' = Some (False, wD_failed)
   \<and> trace wD_failed = [(Unlink ''/h/d/p'', False)]
   \<and> deleteItem 3 ex0 wD ''d'' ''yes''
       = Some ([AskDeleteRecursively, ErrCannotDeleteDirectory], ex0,
               wD_failed\<lparr>trace := [(Rmdir ''/h/d'', False), (Unlink ''/h/d/p'', False)]\<rparr>)"
proof -
  have m1: "plain_path ''/h/d''" by code_simp
  have m2: "node_at wM ''/h/d'' = Some treeN" by code_simp
  have m3: "is_dir treeN" by code_simp
  have m4: "wf_node treeN" by code_simp
  have m5: "removable treeN" by code_simp
  have m6: "parent_writable (root wM) (components ''/h/d'')" by code_simp
  have m7: "height treeN \<le> 2" by code_simp
  have m8: "wM\<lparr>root := alter (components ''/h/d'') None (root wM),
          trace := trace wM @ removal_order ''/h/d'' treeN\<rparr> = wM_deleted" by code_simp
  have m9: "trace wM_deleted = [(Unlink ''/h/d/s/g'', True), (Rmdir ''/h/d/s'', True),
                          (Unlink ''/h/d/f'', True), (Rmdir ''/h/d'', True)]" by code_simp
  have m10: "node_at wM_deleted ''/h/d'' = None" by code_simp
  have m11: "wf_node (root wM)" by code_simp
  have m12: "height (root wM) < 5" by code_simp
  have a: "deleteDirectoryRecursive 3 w0 ''/h/d'' = Some (True, w0_deleted)" by code_simp
  have b: "trace w0_deleted = [(Unlink ''/h/d/f'', True), (Rmdir ''/h/d'', True)]" by code_simp
  have c: "delete_entries 2 wD ''/h/d'' [''.'', ''..''] = Some (True, wD)" by code_simp
  have d: "delete_entries 2 wD ''/h/d'' [''p''] = Some (False, wD_failed)" by code_simp
  have e: "opendir wD ''/h/d'' = Some ([''.'', ''..''] @ ''p'' # [''q''])" by code_simp
  have f: "trace wD_failed = [(Unlink ''/h/d/p'', False)]" by code_simp
  have k: "stat wD (currentPath ex0 @ ''/'' @ ''d'') = Some 16749" by code_simp
  have l: "S_ISDIR 16749" by code_simp
  have m: "rmdir wD (currentPath ex0 @ ''/'' @ ''d'')
      = (False, wD\<lparr>trace := [(Rmdir ''/h/d'', False)]\<rparr>)" by code_simp
  have n: "deleteDirectoryRecursive 3 (wD\<lparr>trace := [(Rmdir ''/h/d'', False)]\<rparr>)
        (currentPath ex0 @ ''/'' @ ''d'')
      = Some (False, wD_failed\<lparr>trace := [(Rmdir ''/h/d'', False), (Unlink ''/h/d/p'', False)]\<rparr>)"
    by code_simp
  note t = delete_depth_first [where path = "''/h/d''" and w = wM and dir = treeN and fuel = 2
      and t = wM and g = 5 and q = "''/h/d''"
      and i = 3 and a = w0 and b = "''/h/d''" and ok = True and a' = w0_deleted
      and k = 2 and v = wD and d = "''/h/d''" and pre = "[''.'', ''..'']" and vp = wD
      and name = "''p''" and ?v1.0 = wD_failed and rest = "[''q'']"
      and u = wD and p = "''/h/d''" and names = "[''.'', ''..''] @ ''p'' # [''q'']" and j = 2
      and ?u1.0 = wD_failed
      and x = wD and e = ex0 and item = "''d''" and st = 16749
      and ?x1.0 = "wD\<lparr>trace := [(Rmdir ''/h/d'', False)]\<rparr>" and n = 3
      and ?x2.0 = "wD_failed\<lparr>trace := [(Rmdir ''/h/d'', False), (Unlink ''/h/d/p'', False)]\<rparr>"]
  from t m1 m2 m3 m4 m5 m6 m7 have r1: "deleteDirectoryRecursive 2 wM ''/h/d''
       = Some (True, wM\<lparr>root := alter (components ''/h/d'') None (root wM),
                        trace := trace wM @ removal_order ''/h/d'' treeN\<rparr>)"
    by blast
  from t m11 m12 have r2: "\<exists>ok t'. deleteDirectoryRecursive 5 wM ''/h/d'' = Some (ok, t')"
    by blast
  from t a have g: "\<exists>evs. trace w0_deleted = trace w0 @ evs \<and> delete_result ''/h/d'' True evs"
    by blast
  from t c d have h: "delete_entries 2 wD ''/h/d'' ([''.'', ''..''] @ ''p'' # [''q''])
      = Some (False, wD_failed)" by blast
  from t e h have i: "deleteDirectoryRecursive (Suc 2) wD ''/h/d'' = Some (False, wD_failed)"
    by blast
  from t k l m n have o: "deleteItem 3 ex0 wD ''d'' ''yes''
       = Some ([AskDeleteRecursively, ErrCannotDeleteDirectory], ex0,
               wD_failed\<lparr>trace := [(Rmdir ''/h/d'', False), (Unlink ''/h/d/p'', False)]\<rparr>)"
    by blast
  from m1 m2 m3 m4 m5 m6 m7 r1 m8 m9 m10 m11 m12 r2 a b g c d h e i f o show ?thesis by blast
qed

subsection \<open>C7: the copy of one file\<close>

text \<open>
  C7, in the form the code satisfies. \<^verbatim>\<open>copyFileInternal\<close> of \<^verbatim>\<open>File_Explorer.cpp\<close>, for an existing
  readable source file and a destination that is another entry. It creates no
  directory: when the path of the destination cannot be resolved (a directory on the
  way to it is missing) the copy fails and the store is as before. When the destination
  can be opened for writing (it is absent from a writable directory, or is a writable
  file, which is then overwritten) the copy succeeds: the destination is a file with
  the bytes of the source and its permission bits, so afterwards \<^verbatim>\<open>stat\<close> and the
  content read are the same for both, and the source is as it was.
\<close>

theorem copyFileInternal_duplicates:
  "(node_at w srcPath = Some (File m b) \<and> m AND S_IRUSR \<noteq> 0
      \<and> resolve w destPath = Some pd \<and> resolve w srcPath \<noteq> Some pd \<and> openable w pd \<longrightarrow>
      (\<exists>w'. copyFileInternal w srcPath destPath = (True, w')
            \<and> node_at w' destPath = Some (File (m AND 4095) b)
            \<and> node_at w' srcPath = Some (File m b)
            \<and> stat w' destPath = stat w' srcPath
            \<and> rdbuf w' destPath = rdbuf w' srcPath))
   \<and> (resolve v missing = None \<longrightarrow>
        fst (copyFileInternal v from missing) = False
        \<and> root (snd (copyFileInternal v from missing)) = root v)"
proof (intro conjI impI)
  assume a: "node_at w srcPath = Some (File m b) \<and> m AND S_IRUSR \<noteq> 0
      \<and> resolve w destPath = Some pd \<and> resolve w srcPath \<noteq> Some pd \<and> openable w pd"
  then have a1: "node_at w srcPath = Some (File m b)" and a2: "m AND S_IRUSR \<noteq> 0"
    and a3: "resolve w destPath = Some pd" and a4: "resolve w srcPath \<noteq> Some pd"
    and a5: "openable w pd"
    by blast+
  have "\<exists>w'. copyFileInternal w srcPath destPath = (True, w')
           \<and> node_at w' destPath = Some (File (m AND 4095) b)
           \<and> node_at w' srcPath = Some (File m b)"
    by (rule copyFileInternal_copies [OF a1 a2 a4 a3 a5])
  then obtain w' where w': "copyFileInternal w srcPath destPath = (True, w')"
    "node_at w' destPath = Some (File (m AND 4095) b)" "node_at w' srcPath = Some (File m b)"
    by blast
  have "stat w' destPath = stat w' srcPath"
    by (simp add: stat_def w'(2,3) and.assoc)
  moreover have "rdbuf w' destPath = rdbuf w' srcPath"
    by (simp add: rdbuf_def w'(2,3))
  ultimately show "\<exists>w'. copyFileInternal w srcPath destPath = (True, w')
            \<and> node_at w' destPath = Some (File (m AND 4095) b)
            \<and> node_at w' srcPath = Some (File m b)
            \<and> stat w' destPath = stat w' srcPath
            \<and> rdbuf w' destPath = rdbuf w' srcPath"
    using w' by blast
next
  assume r: "resolve v missing = None"
  then have o: "ofstream_open v missing = (False, logged (OpenWrite missing) False v)"
    by (simp add: ofstream_open_def open_trunc_def failed_def)
  show "fst (copyFileInternal v from missing) = False"
    by (simp add: copyFileInternal_def o)
  show "root (snd (copyFileInternal v from missing)) = root v"
    by (simp add: copyFileInternal_def o logged_def)
qed

text \<open>
  Copying \<^verbatim>\<open>/h/a\<close> to the absent \<^verbatim>\<open>/h/c\<close> gives a file with the same bytes and mode;
  copying it to \<^verbatim>\<open>/h/n/a\<close>, where \<^verbatim>\<open>/h/n\<close> is missing, fails.
\<close>

theorem copyFileInternal_duplicates_witness:
  "node_at wX ''/h/a'' = Some (File 420 ''x'') \<and> (420 :: mode_t) AND S_IRUSR \<noteq> 0
   \<and> resolve wX ''/h/c'' = Some [''h'', ''c''] \<and> resolve wX ''/h/a'' \<noteq> Some [''h'', ''c'']
   \<and> openable wX [''h'', ''c'']
   \<and> (\<exists>w'. copyFileInternal wX ''/h/a'' ''/h/c'' = (True, w')
          \<and> node_at w' ''/h/c'' = Some (File (420 AND 4095) ''x'')
          \<and> stat w' ''/h/c'' = stat w' ''/h/a''
          \<and> rdbuf w' ''/h/c'' = rdbuf w' ''/h/a'')
   \<and> resolve wX ''/h/n/a'' = None
   \<and> fst (copyFileInternal wX ''/h/a'' ''/h/n/a'') = False
   \<and> root (snd (copyFileInternal wX ''/h/a'' ''/h/n/a'')) = root wX"
proof -
  have a: "node_at wX ''/h/a'' = Some (File 420 ''x'')" by code_simp
  have b: "(420 :: mode_t) AND S_IRUSR \<noteq> 0" by simp
  have c: "resolve wX ''/h/c'' = Some [''h'', ''c'']" by code_simp
  have d: "resolve wX ''/h/a'' \<noteq> Some [''h'', ''c'']" by code_simp
  have e: "openable wX [''h'', ''c'']" by code_simp
  have f: "resolve wX ''/h/n/a'' = None" by code_simp
  note t = copyFileInternal_duplicates [of wX "''/h/a''" 420 "''x''" "''/h/c''" "[''h'', ''c'']"
      wX "''/h/n/a''" "''/h/a''"]
  from t a b c d e have g: "\<exists>w'. copyFileInternal wX ''/h/a'' ''/h/c'' = (True, w')
          \<and> node_at w' ''/h/c'' = Some (File (420 AND 4095) ''x'')
          \<and> stat w' ''/h/c'' = stat w' ''/h/a''
          \<and> rdbuf w' ''/h/c'' = rdbuf w' ''/h/a''"
    by blast
  from t f have h: "fst (copyFileInternal wX ''/h/a'' ''/h/n/a'') = False
        \<and> root (snd (copyFileInternal wX ''/h/a'' ''/h/n/a'')) = root wX"
    by blast
  from a b c d e g f h show ?thesis by blast
qed

text \<open>
  As the specification words it, the property fails on \<^verbatim>\<open>copyFileInternal\<close>: with \<^verbatim>\<open>/h/n\<close> missing, the copy
  of \<^verbatim>\<open>/h/a\<close> to \<^verbatim>\<open>/h/n/a\<close> makes no directory. It fails at the opening of the
  destination, \<^verbatim>\<open>copyFile\<close> reports that the file cannot be copied, and \<^verbatim>\<open>/h/n\<close> is
  missing as before.
\<close>

theorem copy_creates_no_ancestors:
  "stat wX ''/h/n'' = None
   \<and> copyFileInternal wX ''/h/a'' ''/h/n/a''
       = (False, wX\<lparr>trace := [(OpenWrite ''/h/n/a'', False)]\<rparr>)
   \<and> copyFile 5 ex0 wX ''a'' ''n/a''
       = Some ([ErrCannotCopyFile], ex0, wX\<lparr>trace := [(OpenWrite ''/h/n/a'', False)]\<rparr>)
   \<and> stat (wX\<lparr>trace := [(OpenWrite ''/h/n/a'', False)]\<rparr>) ''/h/n'' = None"
  by code_simp

subsection \<open>C8: a directory that cannot be read\<close>

text \<open>
  C8. During a search a subdirectory that cannot be opened is passed over and the walk
  goes on: the search returns (it has no way to fail), with the matches of all the sibling
  branches before and after the unreadable directory \<open>n\<close>, in full, and of the denied
  branch at most its own name. This holds of \<^verbatim>\<open>searchRecursive\<close> of \<^verbatim>\<open>File_Explorer.cpp\<close>
  and of the whole \<^verbatim>\<open>searchRecursive\<close> of \<^verbatim>\<open>file_explorer.cpp\<close> run in the same directory,
  each with its own way of matching and of writing paths. In the second program the step
  of the loop is the same for every directory that cannot be opened, whatever the reason:
  the walk goes on with the remaining entries.
\<close>

theorem search_skips_unreadable:
  assumes "node_at w path = Some (Dir m d (es1 @ (n, Dir m' d' sub) # es2))"
    and "wf_node (Dir m d (es1 @ (n, Dir m' d' sub) # es2))"
    and "height (Dir m d (es1 @ (n, Dir m' d' sub) # es2)) < fuel"
    and "m AND S_IRUSR \<noteq> 0" and "m AND S_IXUSR \<noteq> 0" and "m' AND S_IRUSR = 0"
    and "current e = path"
    and "snd x" and "opendir_entries v (path_append dir (fst x)) = None"
  shows "searchRecursive fuel w path term []
           = Some (matching term (entries_below path es1)
                   @ (if name_matches term n then [path @ ''/'' @ n @ ''/''] else [])
                   @ matching term (entries_below path es2))
         \<and> searchRecursive_fs fuel e w needle
           = Some (MsgSearching needle path
                   # map MsgHit (hits needle (listed_below path True es1)
                                 @ (if name_contains needle n then [path_append path n] else [])
                                 @ hits needle (listed_below path True es2))
                   @ [MsgFoundItems
                        (length (hits needle (listed_below path True es1)
                                 @ (if name_contains needle n then [path_append path n] else [])
                                 @ hits needle (listed_below path True es2)))], e, w)
         \<and> walk_search k v needle dir (x # rest) found
           = walk_search k v needle dir rest
               (if str_find (filename_of (path_append dir (fst x))) needle \<noteq> None
                then found @ [path_append dir (fst x)] else found)"
proof (intro conjI)
  from assms(1) obtain p where p: "resolve w path = Some p"
    "lookup (root w) p = Some (Dir m d (es1 @ (n, Dir m' d' sub) # es2))"
    by (auto simp: node_at_def split: option.splits)
  have sub: "subtree_entries path (Dir m d (es1 @ (n, Dir m' d' sub) # es2))
      = entries_below path es1 @ [(n, path @ ''/'' @ n, True)] @ entries_below path es2"
    using assms(4-6) by (simp add: entries_below_def)
  have own: "matching term [(n, path @ ''/'' @ n, True)]
      = (if name_matches term n then [path @ ''/'' @ n @ ''/''] else [])"
    by (simp add: matching_def shown_as_def)
  from searchRecursive_correct [OF p assms(2,3), of "term" "[]"]
  show "searchRecursive fuel w path term []
           = Some (matching term (entries_below path es1)
                   @ (if name_matches term n then [path @ ''/'' @ n @ ''/''] else [])
                   @ matching term (entries_below path es2))"
    unfolding sub matching_append own by simp
next
  define found where "found = hits needle (listed_below path True es1)
       @ (if name_contains needle n then [path_append path n] else [])
       @ hits needle (listed_below path True es2)"
  from assms(1,7) have at: "node_at w (current e) = Some (Dir m d (es1 @ (n, Dir m' d' sub) # es2))"
    by simp
  from assms(3) have h: "height (Dir m d (es1 @ (n, Dir m' d' sub) # es2)) \<le> Suc fuel" by simp
  have l: "listed path (Dir m d (es1 @ (n, Dir m' d' sub) # es2))
      = listed_below path True es1 @ [(n, path_append path n, True)] @ listed_below path True es2"
    using assms(4-6) by (simp add: listed_below_def)
  have "hits needle (listed path (Dir m d (es1 @ (n, Dir m' d' sub) # es2))) = found"
    unfolding l hits_append found_def by (simp add: hits_def)
  with searchRecursive_fs_correct [OF at assms(2) h, of needle]
  show "searchRecursive_fs fuel e w needle
           = Some (MsgSearching needle path
                   # map MsgHit (hits needle (listed_below path True es1)
                                 @ (if name_contains needle n then [path_append path n] else [])
                                 @ hits needle (listed_below path True es2))
                   @ [MsgFoundItems
                        (length (hits needle (listed_below path True es1)
                                 @ (if name_contains needle n then [path_append path n] else [])
                                 @ hits needle (listed_below path True es2)))], e, w)"
    unfolding found_def [symmetric] by (simp add: assms(7))
next
  from assms(8,9) show "walk_search k v needle dir (x # rest) found
           = walk_search k v needle dir rest
               (if str_find (filename_of (path_append dir (fst x))) needle \<noteq> None
                then found @ [path_append dir (fst x)] else found)"
    by (simp add: Let_def)
qed

text \<open>
  In \<^verbatim>\<open>/r\<close> the reports of \<^verbatim>\<open>x\<close> and \<^verbatim>\<open>y\<close> are found by both programs, the one inside
  \<^verbatim>\<open>locked\<close> by neither.
\<close>

theorem search_skips_unreadable_witness:
  "node_at wU ''/r'' = Some (Dir 493 1
       ([(''x'', Dir 493 1 [(''report1'', File 420 ''1'')])]
        @ (''locked'', Dir 0 1 [(''report2'', File 420 ''2'')])
        # [(''y'', Dir 493 1 [(''report3'', File 420 ''3'')])]))
   \<and> current fxU = ''/r''
   \<and> searchRecursive 5 wU ''/r'' ''report'' [] = Some [''/r/x/report1'', ''/r/y/report3'']
   \<and> searchRecursive 5 wU ''/r'' ''report'' []
       = Some (matching ''report''
                 (entries_below ''/r'' [(''x'', Dir 493 1 [(''report1'', File 420 ''1'')])])
               @ (if name_matches ''report'' ''locked'' then [''/r'' @ ''/'' @ ''locked'' @ ''/'']
                  else [])
               @ matching ''report''
                   (entries_below ''/r'' [(''y'', Dir 493 1 [(''report3'', File 420 ''3'')])]))
   \<and> searchRecursive_fs 5 fxU wU ''report''
       = Some ([MsgSearching ''report'' ''/r'', MsgHit ''/r/x/report1'', MsgHit ''/r/y/report3'',
                MsgFoundItems 2], fxU, wU)
   \<and> searchRecursive_fs 5 fxU wU ''report''
       = Some (MsgSearching ''report'' ''/r''
               # map MsgHit
                   (hits ''report''
                      (listed_below ''/r'' True [(''x'', Dir 493 1 [(''report1'', File 420 ''1'')])])
                    @ (if name_contains ''report'' ''locked'' then [path_append ''/r'' ''locked'']
                       else [])
                    @ hits ''report''
                        (listed_below ''/r'' True [(''y'', Dir 493 1 [(''report3'', File 420 ''3'')])]))
               @ [MsgFoundItems
                    (length
                       (hits ''report''
                          (listed_below ''/r'' True [(''x'', Dir 493 1 [(''report1'', File 420 ''1'')])])
                        @ (if name_contains ''report'' ''locked'' then [path_append ''/r'' ''locked'']
                           else [])
                        @ hits ''report''
                            (listed_below ''/r'' True
                               [(''y'', Dir 493 1 [(''report3'', File 420 ''3'')])])))], fxU, wU)
   \<and> opendir_entries wU (path_append ''/r'' (fst (''locked'', True))) = None
   \<and> walk_search 5 wU ''report'' ''/r'' [(''locked'', True), (''y'', True)] []
       = walk_search 5 wU ''report'' ''/r'' [(''y'', True)] []
   \<and> walk_search 5 wU ''report'' ''/r'' [(''locked'', True), (''y'', True)] []
       = Some [''/r/y/report3'']"
proof -
  have a: "node_at wU ''/r'' = Some (Dir 493 1
       ([(''x'', Dir 493 1 [(''report1'', File 420 ''1'')])]
        @ (''locked'', Dir 0 1 [(''report2'', File 420 ''2'')])
        # [(''y'', Dir 493 1 [(''report3'', File 420 ''3'')])]))" by code_simp
  have b: "wf_node (Dir 493 1
       ([(''x'', Dir 493 1 [(''report1'', File 420 ''1'')])]
        @ (''locked'', Dir 0 1 [(''report2'', File 420 ''2'')])
        # [(''y'', Dir 493 1 [(''report3'', File 420 ''3'')])]))" by code_simp
  have c: "height (Dir 493 1
       ([(''x'', Dir 493 1 [(''report1'', File 420 ''1'')])]
        @ (''locked'', Dir 0 1 [(''report2'', File 420 ''2'')])
        # [(''y'', Dir 493 1 [(''report3'', File 420 ''3'')])])) < 5" by code_simp
  have d: "(493 :: mode_t) AND S_IRUSR \<noteq> 0" by simp
  have e: "(493 :: mode_t) AND S_IXUSR \<noteq> 0" by simp
  have f: "(0 :: mode_t) AND S_IRUSR = 0" by simp
  have cu: "current fxU = ''/r''" by code_simp
  have g: "snd (''locked'', True)" by simp
  have h: "opendir_entries wU (path_append ''/r'' (fst (''locked'', True))) = None" by code_simp
  have i: "searchRecursive 5 wU ''/r'' ''report'' [] = Some [''/r/x/report1'', ''/r/y/report3'']"
    by code_simp
  have i2: "searchRecursive_fs 5 fxU wU ''report''
       = Some ([MsgSearching ''report'' ''/r'', MsgHit ''/r/x/report1'', MsgHit ''/r/y/report3'',
                MsgFoundItems 2], fxU, wU)"
    by code_simp
  have j: "str_find (filename_of (path_append ''/r'' (fst (''locked'', True)))) ''report'' = None"
    by code_simp
  have l: "walk_search 5 wU ''report'' ''/r'' [(''locked'', True), (''y'', True)] []
       = Some [''/r/y/report3'']" by code_simp
  note t = search_skips_unreadable [OF a b c d e f cu g h, of "''report''" "''report''" 5
      "[(''y'', True)]" "[]"]
  from t have s: "searchRecursive 5 wU ''/r'' ''report'' []
       = Some (matching ''report''
                 (entries_below ''/r'' [(''x'', Dir 493 1 [(''report1'', File 420 ''1'')])])
               @ (if name_matches ''report'' ''locked'' then [''/r'' @ ''/'' @ ''locked'' @ ''/'']
                  else [])
               @ matching ''report''
                   (entries_below ''/r'' [(''y'', Dir 493 1 [(''report3'', File 420 ''3'')])]))"
    by (rule conjunct1)
  from t have s2: "searchRecursive_fs 5 fxU wU ''report''
       = Some (MsgSearching ''report'' ''/r''
               # map MsgHit
                   (hits ''report''
                      (listed_below ''/r'' True [(''x'', Dir 493 1 [(''report1'', File 420 ''1'')])])
                    @ (if name_contains ''report'' ''locked'' then [path_append ''/r'' ''locked'']
                       else [])
                    @ hits ''report''
                        (listed_below ''/r'' True [(''y'', Dir 493 1 [(''report3'', File 420 ''3'')])]))
               @ [MsgFoundItems
                    (length
                       (hits ''report''
                          (listed_below ''/r'' True [(''x'', Dir 493 1 [(''report1'', File 420 ''1'')])])
                        @ (if name_contains ''report'' ''locked'' then [path_append ''/r'' ''locked'']
                           else [])
                        @ hits ''report''
                            (listed_below ''/r'' True
                               [(''y'', Dir 493 1 [(''report3'', File 420 ''3'')])])))], fxU, wU)"
    by (rule conjunct1 [OF conjunct2])
  from t j have k: "walk_search 5 wU ''report'' ''/r'' [(''locked'', True), (''y'', True)] []
       = walk_search 5 wU ''report'' ''/r'' [(''y'', True)] []"
    by simp
  from a cu i s i2 s2 h k l show ?thesis by blast
qed

subsection \<open>C9: what the operations leave as it is\<close>

text \<open>
  C9, in the form the code satisfies. The current working path is changed by the directory-change
  operation only. In \<^verbatim>\<open>File_Explorer.cpp\<close> listing, creating a file or a directory,
  renaming, viewing and changing permissions, changing the owner, changing the theme,
  and every run of deleting, copying, moving and searching that returns, leave
  \<^verbatim>\<open>currentPath\<close> as it was; in \<^verbatim>\<open>file_explorer.cpp\<close> the same holds of \<^verbatim>\<open>current\<close> for
  the toggle of hidden files, the sort setting, listing, making a directory, creating,
  previewing, removing, changing permissions, renaming, moving, copying and searching.
  (The path is not the only state the explorers keep between calls: see the example
  after the next.)
\<close>

theorem currentPath_frame:
  "currentPath (fst (snd (listFiles e w detailed))) = currentPath e
   \<and> currentPath (fst (snd (createFile e w name))) = currentPath e
   \<and> currentPath (fst (snd (createDirectory e w name))) = currentPath e
   \<and> currentPath (fst (snd (renameItem e w name other))) = currentPath e
   \<and> currentPath (fst (snd (viewPermissions e w name))) = currentPath e
   \<and> currentPath (fst (snd (changePermissions e w name perms))) = currentPath e
   \<and> currentPath (fst (snd (changeOwner e w name owner grp))) = currentPath e
   \<and> currentPath (fst (snd (changeTheme e w theme))) = currentPath e
   \<and> (\<forall>r. deleteItem fuel e w name confirm = Some r \<longrightarrow> currentPath (fst (snd r)) = currentPath e)
   \<and> (\<forall>r. copyFile fuel e w name other = Some r \<longrightarrow> currentPath (fst (snd r)) = currentPath e)
   \<and> (\<forall>r. moveFile fuel e w name other = Some r \<longrightarrow> currentPath (fst (snd r)) = currentPath e)
   \<and> (\<forall>r. searchFiles fuel e w needle other = Some r \<longrightarrow> currentPath (fst (snd r)) = currentPath e)
   \<and> current (fst (snd (toggleHidden f w))) = current f
   \<and> current (fst (snd (setSort f w s df))) = current f
   \<and> current (fst (snd (list_fs f w detailed))) = current f
   \<and> current (fst (snd (snd (makeDirectory f w name)))) = current f
   \<and> current (fst (snd (snd (createFile_fs f w name)))) = current f
   \<and> current (fst (snd (snd (previewFile f w name n)))) = current f
   \<and> current (fst (snd (snd (removeRecursively f w name ans)))) = current f
   \<and> current (fst (snd (snd (changePermissions_fs f w name perms)))) = current f
   \<and> current (fst (snd (snd (renameItem_fs f w name other)))) = current f
   \<and> current (fst (snd (snd (moveItem f w name other)))) = current f
   \<and> (\<forall>r. copyRecursively fuel f w name other = Some r \<longrightarrow> current (fst (snd (snd r))) = current f)
   \<and> (\<forall>r. searchRecursive_fs fuel f w needle = Some r \<longrightarrow> current (fst (snd r)) = current f)"
proof (intro conjI allI impI)
  show "currentPath (fst (snd (listFiles e w detailed))) = currentPath e"
    by (simp add: listFiles_def Let_def split: option.splits)
  show "currentPath (fst (snd (createFile e w name))) = currentPath e"
    by (simp add: createFile_def Let_def addToRecentFiles_def split: prod.splits)
  show "currentPath (fst (snd (createDirectory e w name))) = currentPath e"
    by (simp add: createDirectory_def Let_def split: prod.splits)
  show "currentPath (fst (snd (renameItem e w name other))) = currentPath e"
    by (simp add: renameItem_def Let_def split: option.splits prod.splits)
  show "currentPath (fst (snd (viewPermissions e w name))) = currentPath e"
    by (simp add: viewPermissions_def split: option.splits)
  show "currentPath (fst (snd (changePermissions e w name perms))) = currentPath e"
    by (simp add: changePermissions_def split: option.splits prod.splits)
  show "currentPath (fst (snd (changeOwner e w name owner grp))) = currentPath e"
    by (simp add: changeOwner_def split: prod.splits)
  show "currentPath (fst (snd (changeTheme e w theme))) = currentPath e"
    by (simp add: changeTheme_def)
  show "currentPath (fst (snd r)) = currentPath e"
    if "deleteItem fuel e w name confirm = Some r" for r
    using that
    by (auto simp: deleteItem_def Let_def split: option.splits prod.splits if_splits)
  show "currentPath (fst (snd r)) = currentPath e"
    if "copyFile fuel e w name other = Some r" for r
    using that
    by (auto simp: copyFile_def Let_def split: option.splits prod.splits if_splits)
  show "currentPath (fst (snd r)) = currentPath e"
    if "moveFile fuel e w name other = Some r" for r
    using that moveFile_runs [of fuel e w name other "fst r" "fst (snd r)" "snd (snd r)"]
    by simp
  show "currentPath (fst (snd r)) = currentPath e"
    if "searchFiles fuel e w needle other = Some r" for r
    using that
    by (auto simp: searchFiles_def Let_def split: option.splits if_splits)
  show "current (fst (snd (toggleHidden f w))) = current f"
    by (simp add: toggleHidden_def Let_def)
  show "current (fst (snd (setSort f w s df))) = current f"
    by (simp add: setSort_def)
  show "current (fst (snd (list_fs f w detailed))) = current f"
    by (simp add: list_fs_def split: prod.splits)
  show "current (fst (snd (snd (makeDirectory f w name)))) = current f"
    by (simp add: makeDirectory_def Let_def split: prod.splits)
  show "current (fst (snd (snd (createFile_fs f w name)))) = current f"
    by (simp add: createFile_fs_def Let_def split: prod.splits)
  show "current (fst (snd (snd (previewFile f w name n)))) = current f"
    by (simp add: previewFile_def Let_def)
  show "current (fst (snd (snd (removeRecursively f w name ans)))) = current f"
    by (simp add: removeRecursively_def Let_def split: prod.splits)
  show "current (fst (snd (snd (changePermissions_fs f w name perms)))) = current f"
    by (simp add: changePermissions_fs_def Let_def split: option.splits prod.splits)
  show "current (fst (snd (snd (renameItem_fs f w name other)))) = current f"
    by (simp add: renameItem_fs_def split: prod.splits)
  show "current (fst (snd (snd (moveItem f w name other)))) = current f"
    by (simp add: moveItem_def Let_def split: prod.splits)
  show "current (fst (snd (snd r))) = current f"
    if "copyRecursively fuel f w name other = Some r" for r
    using that
    by (auto simp: copyRecursively_def Let_def split: option.splits prod.splits if_splits)
  show "current (fst (snd r)) = current f"
    if "searchRecursive_fs fuel f w needle = Some r" for r
    using that
    by (auto simp: searchRecursive_fs_def split: option.splits)
qed

text \<open>
  In the first store: deleting \<^verbatim>\<open>d\<close>, copying \<^verbatim>\<open>a\<close> to \<^verbatim>\<open>c\<close>, moving \<^verbatim>\<open>a\<close> into \<^verbatim>\<open>d\<close>
  and searching all return and leave the path \<^verbatim>\<open>/h\<close>, as do the copy and the search of
  the other program; changing the directory to \<^verbatim>\<open>d\<close> changes it.
\<close>

theorem currentPath_frame_witness:
  "(\<exists>r. deleteItem 3 ex0 w0 ''d'' ''yes'' = Some r \<and> currentPath (fst (snd r)) = currentPath ex0)
   \<and> (\<exists>r. copyFile 3 ex0 w0 ''a'' ''c'' = Some r \<and> currentPath (fst (snd r)) = currentPath ex0)
   \<and> (\<exists>r. moveFile 3 ex0 w0 ''a'' ''d'' = Some r \<and> currentPath (fst (snd r)) = currentPath ex0)
   \<and> (\<exists>r. searchFiles 3 ex0 w0 ''a'' '''' = Some r \<and> currentPath (fst (snd r)) = currentPath ex0)
   \<and> (\<exists>r. copyRecursively 3 fx0 w0 ''d'' ''e'' = Some r
          \<and> current (fst (snd (snd r))) = current fx0)
   \<and> (\<exists>r. searchRecursive_fs 3 fx0 w0 ''a'' = Some r \<and> current (fst (snd r)) = current fx0)
   \<and> currentPath (fst (snd (listFiles ex0 w0 False))) = currentPath ex0
   \<and> currentPath ex0 = ''/h''
   \<and> currentPath (fst (snd (changeDirectory ex0 w0 ''d''))) = ''/h/d''"
proof -
  obtain r1 where r1: "deleteItem 3 ex0 w0 ''d'' ''yes'' = Some r1"
    by (cases "deleteItem 3 ex0 w0 ''d'' ''yes''") (code_simp, blast)
  obtain r2 where r2: "copyFile 3 ex0 w0 ''a'' ''c'' = Some r2"
    by (cases "copyFile 3 ex0 w0 ''a'' ''c''") (code_simp, blast)
  obtain r3 where r3: "moveFile 3 ex0 w0 ''a'' ''d'' = Some r3"
    by (cases "moveFile 3 ex0 w0 ''a'' ''d''") (code_simp, blast)
  obtain r4 where r4: "searchFiles 3 ex0 w0 ''a'' '''' = Some r4"
    by (cases "searchFiles 3 ex0 w0 ''a'' ''''") (code_simp, blast)
  obtain r5 where r5: "copyRecursively 3 fx0 w0 ''d'' ''e'' = Some r5"
    by (cases "copyRecursively 3 fx0 w0 ''d'' ''e''") (code_simp, blast)
  obtain r6 where r6: "searchRecursive_fs 3 fx0 w0 ''a'' = Some r6"
    by (cases "searchRecursive_fs 3 fx0 w0 ''a''") (code_simp, blast)
  have a: "currentPath ex0 = ''/h''" by code_simp
  have b: "currentPath (fst (snd (changeDirectory ex0 w0 ''d''))) = ''/h/d''" by code_simp
  have c: "currentPath (fst (snd (listFiles ex0 w0 False))) = currentPath ex0"
    using currentPath_frame [of ex0 w0 False] by (rule conjunct1)
  have d1: "\<exists>r. deleteItem 3 ex0 w0 ''d'' ''yes'' = Some r \<and> currentPath (fst (snd r)) = currentPath ex0"
    using currentPath_frame [of ex0 w0 _ "''d''" _ _ _ _ _ 3 "''yes''"] r1 by blast
  have d2: "\<exists>r. copyFile 3 ex0 w0 ''a'' ''c'' = Some r \<and> currentPath (fst (snd r)) = currentPath ex0"
    using currentPath_frame [of ex0 w0 _ "''a''" "''c''" _ _ _ _ 3] r2 by blast
  have d3: "\<exists>r. moveFile 3 ex0 w0 ''a'' ''d'' = Some r \<and> currentPath (fst (snd r)) = currentPath ex0"
    using currentPath_frame [of ex0 w0 _ "''a''" "''d''" _ _ _ _ 3] r3 by blast
  have d4: "\<exists>r. searchFiles 3 ex0 w0 ''a'' '''' = Some r \<and> currentPath (fst (snd r)) = currentPath ex0"
    using currentPath_frame [of ex0 w0 _ _ "''''" _ _ _ _ 3 _ "''a''"] r4 by blast
  have d5: "\<exists>r. copyRecursively 3 fx0 w0 ''d'' ''e'' = Some r
          \<and> current (fst (snd (snd r))) = current fx0"
    using currentPath_frame [of _ w0 _ "''d''" "''e''" _ _ _ _ 3 _ _ fx0] r5 by blast
  have d6: "\<exists>r. searchRecursive_fs 3 fx0 w0 ''a'' = Some r \<and> current (fst (snd r)) = current fx0"
    using currentPath_frame [of _ w0 _ _ _ _ _ _ _ 3 _ "''a''" fx0] r6 by blast
  from d1 d2 d3 d4 d5 d6 c a b show ?thesis by blast
qed

text \<open>
  As the specification words it, the property fails on both programs, which keep more than the path between
  calls and change it in other operations: \<^verbatim>\<open>listFiles\<close> refills \<^verbatim>\<open>fileList\<close>,
  \<^verbatim>\<open>createFile\<close> adds to \<^verbatim>\<open>recentFiles\<close>, \<^verbatim>\<open>changeTheme\<close> sets \<^verbatim>\<open>currentTheme\<close>; in
  \<^verbatim>\<open>file_explorer.cpp\<close> \<^verbatim>\<open>toggleHidden\<close> flips \<^verbatim>\<open>showHidden\<close> and \<^verbatim>\<open>setSort\<close> sets the order.
\<close>

theorem explorer_state_beside_the_path:
  "fileList ex0 = [] \<and> fileList (fst (snd (listFiles ex0 w0 False))) = [''.'', ''..'', ''d'', ''a'', ''b'']
   \<and> recentFiles ex0 = [] \<and> recentFiles (fst (snd (createFile ex0 w0 ''c''))) = [''/h/c'']
   \<and> currentTheme ex0 = ''default''
   \<and> currentTheme (fst (snd (changeTheme ex0 w0 ''dark''))) = ''dark''
   \<and> showHidden fx0 = False \<and> showHidden (fst (snd (toggleHidden fx0 w0))) = True
   \<and> sortBy fx0 = NAME \<and> sortBy (fst (snd (setSort fx0 w0 SIZE True))) = SIZE"
  by code_simp

subsection \<open>C10: renaming onto an existing name\<close>

text \<open>
  C10. \<^verbatim>\<open>renameItem\<close>: when the item to rename exists and an item with the new name
  exists too in the current directory, the operation prints the already-exists error and
  returns with the explorer and the operating system exactly as they were: the store is
  the same, so both items are untouched, and the trace is the same, so \<^verbatim>\<open>rename\<close> was
  not even attempted.
\<close>

theorem renameItem_existing_name:
  assumes "stat w (currentPath e @ ''/'' @ oldName) \<noteq> None"
    and "stat w (currentPath e @ ''/'' @ newName) \<noteq> None"
  shows "renameItem e w oldName newName = ([ErrNameAlreadyExists newName], e, w)"
  using assms by (auto simp: renameItem_def Let_def split: option.splits)

theorem renameItem_existing_name_witness:
  "stat w0 (currentPath ex0 @ ''/'' @ ''a'') \<noteq> None
   \<and> stat w0 (currentPath ex0 @ ''/'' @ ''b'') \<noteq> None
   \<and> renameItem ex0 w0 ''a'' ''b'' = ([ErrNameAlreadyExists ''b''], ex0, w0)"
proof -
  have a: "stat w0 (currentPath ex0 @ ''/'' @ ''a'') \<noteq> None" by code_simp
  have b: "stat w0 (currentPath ex0 @ ''/'' @ ''b'') \<noteq> None" by code_simp
  from a b renameItem_existing_name [OF a b] show ?thesis by simp
qed

end
